theory Spec2Isabelle
  imports Main "HOL-Library.Word"
begin

unbundle bit_operations_syntax

section \<open>The bitswap workers (go-bitswap/workers.go)\<close>

text \<open>
  Each goroutine of \<^verbatim>\<open>workers.go\<close> is embedded as a transition system. Where several
  goroutines share state (the provider query manager and its search tasks, the provide
  worker and its announce tasks, the provide collector with its producer and consumer)
  a run is a list of events, one per atomic step of one goroutine, and the step function
  returns \<open>None\<close> for an event that cannot happen in the given state (a send on a nil
  channel, a receive by a goroutine that has returned). Where one goroutine waits in a
  \<^verbatim>\<open>select\<close> (task worker, rebroadcast worker) a step takes the readiness of each
  channel and the scheduler's pick among the ready cases.
\<close>

type_synonym cid = string
type_synonym peer_ID = string

subsection \<open>providerQueryManager (lines 210-256)\<close>

text \<open>
  A \<^verbatim>\<open>*blockRequest\<close> as the manager sees it when it dequeues it: the \<^verbatim>\<open>Cid\<close> and
  whether \<^verbatim>\<open>e.Ctx.Done()\<close> is already closed at the poll of lines 217-221.
\<close>

record blockRequest =
  Cid :: cid
  Ctx_done :: bool

text \<open>
  The goroutine of lines 231-250. \<open>Launched\<close>: started by the \<^verbatim>\<open>go\<close> statement, the
  call of line 234 not made yet. \<open>Ranging\<close>: inside \<^verbatim>\<open>for p := range providers\<close>.
  \<open>Waiting\<close>: the providers channel is closed, the goroutine is in \<^verbatim>\<open>wg.Wait()\<close>.
  \<open>t_wg\<close> is the counter of the \<^verbatim>\<open>sync.WaitGroup\<close>.
\<close>

datatype task_phase = Launched | Ranging | Waiting

record search_task =
  t_cid :: cid
  t_phase :: task_phase
  t_wg :: nat

text \<open>
  \<open>kset\<close> is the \<^verbatim>\<open>cid.Set\<close> of line 212, \<open>tasks\<close> the search goroutines that have
  not finished, \<open>find_calls\<close> and \<open>connect_calls\<close> the calls made so far to
  \<^verbatim>\<open>bs.network.FindProvidersAsync\<close> and \<^verbatim>\<open>bs.network.ConnectTo\<close>,
  \<open>connects_done\<close> the content ids of the searches whose \<^verbatim>\<open>ConnectTo\<close> calls have
  returned, one entry per call, and \<open>returned\<close> whether the manager's loop has
  returned (line 253).
\<close>

record pqm_state =
  kset :: "cid set"
  tasks :: "search_task list"
  find_calls :: "cid list"
  connect_calls :: "(cid \<times> peer_ID) list"
  connects_done :: "cid list"
  returned :: bool

definition pqm_init :: pqm_state where
  "pqm_init = \<lparr>kset = {}, tasks = [], find_calls = [], connect_calls = [],
                connects_done = [], returned = False\<rparr>"

text \<open>
  The atomic steps. \<open>Dequeue e\<close>: the manager takes \<open>e\<close> from \<^verbatim>\<open>bs.findKeys\<close> and runs
  lines 217-231. \<open>ManagerCtxDone\<close>: line 252. The others move the search goroutine at
  position \<open>i\<close> of \<open>tasks\<close>: \<open>CallFind\<close> is line 234, \<open>Provider i p\<close> one iteration of
  the loop of lines 236-245 (\<^verbatim>\<open>wg.Add(1)\<close> and the start of the connecting goroutine),
  \<open>ProvidersClosed\<close> the end of that loop, \<open>ConnectDone i failed\<close> the return of one
  \<^verbatim>\<open>ConnectTo\<close> (the error is logged only) with its deferred \<^verbatim>\<open>wg.Done()\<close>, and
  \<open>Finish\<close> lines 246-249, enabled when the counter is zero.
\<close>

datatype pqm_event =
    Dequeue blockRequest
  | ManagerCtxDone
  | CallFind nat
  | Provider nat peer_ID
  | ProvidersClosed nat
  | ConnectDone nat bool
  | Finish nat

definition remove_nth :: "nat \<Rightarrow> 'a list \<Rightarrow> 'a list" where
  "remove_nth i xs = take i xs @ drop (Suc i) xs"

fun providerQueryManager_step :: "pqm_state \<Rightarrow> pqm_event \<Rightarrow> pqm_state option" where
  "providerQueryManager_step s (Dequeue e) =
     (if returned s then None
      else if Ctx_done e then Some s
      else if Cid e \<in> kset s then Some s
      else Some (s\<lparr>kset := insert (Cid e) (kset s),
                   tasks := tasks s @ [\<lparr>t_cid = Cid e, t_phase = Launched, t_wg = 0\<rparr>]\<rparr>))"
| "providerQueryManager_step s ManagerCtxDone =
     (if returned s then None else Some (s\<lparr>returned := True\<rparr>))"
| "providerQueryManager_step s (CallFind i) =
     (if i < length (tasks s) \<and> t_phase (tasks s ! i) = Launched
      then Some (s\<lparr>tasks := (tasks s)[i := (tasks s ! i)\<lparr>t_phase := Ranging\<rparr>],
                   find_calls := find_calls s @ [t_cid (tasks s ! i)]\<rparr>)
      else None)"
| "providerQueryManager_step s (Provider i p) =
     (if i < length (tasks s) \<and> t_phase (tasks s ! i) = Ranging
      then Some (s\<lparr>tasks := (tasks s)[i := (tasks s ! i)\<lparr>t_wg := Suc (t_wg (tasks s ! i))\<rparr>],
                   connect_calls := connect_calls s @ [(t_cid (tasks s ! i), p)]\<rparr>)
      else None)"
| "providerQueryManager_step s (ProvidersClosed i) =
     (if i < length (tasks s) \<and> t_phase (tasks s ! i) = Ranging
      then Some (s\<lparr>tasks := (tasks s)[i := (tasks s ! i)\<lparr>t_phase := Waiting\<rparr>]\<rparr>)
      else None)"
| "providerQueryManager_step s (ConnectDone i failed) =
     (if i < length (tasks s) \<and> 0 < t_wg (tasks s ! i)
      then Some (s\<lparr>tasks := (tasks s)[i := (tasks s ! i)\<lparr>t_wg := t_wg (tasks s ! i) - 1\<rparr>],
                   connects_done := connects_done s @ [t_cid (tasks s ! i)]\<rparr>)
      else None)"
| "providerQueryManager_step s (Finish i) =
     (if i < length (tasks s) \<and> t_phase (tasks s ! i) = Waiting \<and> t_wg (tasks s ! i) = 0
      then Some (s\<lparr>kset := kset s - {t_cid (tasks s ! i)},
                   tasks := remove_nth i (tasks s)\<rparr>)
      else None)"

fun pqm_run :: "pqm_state \<Rightarrow> pqm_event list \<Rightarrow> pqm_state option" where
  "pqm_run s [] = Some s"
| "pqm_run s (e # es) = (case providerQueryManager_step s e of None \<Rightarrow> None | Some s' \<Rightarrow> pqm_run s' es)"

text \<open>
  Notions used to state the properties of the manager. \<open>cids\<close> lists the content ids
  of the searches in flight, \<open>in_flight c\<close> says that a search goroutine for \<open>c\<close> has
  been started and has not finished, \<open>uncalled c\<close> that such a goroutine has not reached
  its call of \<^verbatim>\<open>FindProvidersAsync\<close> yet, and \<open>in_flight_during c s es\<close> that the
  events \<open>es\<close> can happen from \<open>s\<close> with a search for \<open>c\<close> in flight in every state
  on the way, the first and the last included.
\<close>

definition cids :: "pqm_state \<Rightarrow> cid list" where
  "cids s = map t_cid (tasks s)"

definition in_flight :: "cid \<Rightarrow> pqm_state \<Rightarrow> bool" where
  "in_flight c s = (c \<in> set (cids s))"

definition uncalled :: "cid \<Rightarrow> pqm_state \<Rightarrow> bool" where
  "uncalled c s = (\<exists>t \<in> set (tasks s). t_cid t = c \<and> t_phase t = Launched)"

fun in_flight_during :: "cid \<Rightarrow> pqm_state \<Rightarrow> pqm_event list \<Rightarrow> bool" where
  "in_flight_during c s [] = in_flight c s"
| "in_flight_during c s (e # es) =
     (in_flight c s \<and> (case providerQueryManager_step s e of None \<Rightarrow> False | Some s' \<Rightarrow> in_flight_during c s' es))"

text \<open>
  The invariant of the manager: the set holds exactly the content ids of the searches in
  flight, and no two searches in flight have the same content id.
\<close>

definition pqm_inv :: "pqm_state \<Rightarrow> bool" where
  "pqm_inv s = (kset s = set (cids s) \<and> distinct (cids s))"

text \<open>
  The connection attempts started and finished so far for the providers of \<open>c\<close>, and
  the events by which the search goroutine at position \<open>i\<close>, being as \<open>t\<close> says,
  runs to its end if every connection attempt returns: its call of
  \<^verbatim>\<open>FindProvidersAsync\<close> if not made yet, the end of the providers loop if not reached
  yet, the return of each pending \<^verbatim>\<open>ConnectTo\<close>, and lines 246-249.
\<close>

definition connects_started :: "cid \<Rightarrow> pqm_state \<Rightarrow> nat" where
  "connects_started c s = count_list (map fst (connect_calls s)) c"

definition connects_finished :: "cid \<Rightarrow> pqm_state \<Rightarrow> nat" where
  "connects_finished c s = count_list (connects_done s) c"

definition connects_pending :: "cid \<Rightarrow> pqm_state \<Rightarrow> nat" where
  "connects_pending c s = sum_list (map (\<lambda>t. if t_cid t = c then t_wg t else 0) (tasks s))"

definition pqm_finish_events :: "nat \<Rightarrow> search_task \<Rightarrow> pqm_event list" where
  "pqm_finish_events i t =
     (if t_phase t = Launched then [CallFind i] else [])
     @ (if t_phase t = Waiting then [] else [ProvidersClosed i])
     @ replicate (t_wg t) (ConnectDone i False)
     @ [Finish i]"

definition pending_calls :: "cid \<Rightarrow> pqm_state \<Rightarrow> nat" where
  "pending_calls c s = length (filter (\<lambda>t. t_cid t = c \<and> t_phase t = Launched) (tasks s))"

definition calls_due :: "cid \<Rightarrow> pqm_state \<Rightarrow> nat" where
  "calls_due c s = count_list (find_calls s) c + pending_calls c s"

text \<open>
  A run used to exercise the theorems: a request for \<open>X\<close> starts a search
  (\<open>pqm_demo_launched\<close>), a second request for \<open>X\<close> arrives while the search is in
  flight, one provider \<open>Q\<close> is found and the providers loop ends
  (\<open>pqm_demo_connecting\<close>), and the connection to \<open>Q\<close> completes (\<open>pqm_demo_end\<close>).
\<close>

definition pqm_demo_search :: "pqm_event list" where
  "pqm_demo_search = [Dequeue \<lparr>Cid = ''X'', Ctx_done = False\<rparr>, CallFind 0,
     Dequeue \<lparr>Cid = ''X'', Ctx_done = False\<rparr>, Provider 0 ''Q'', ProvidersClosed 0]"

definition pqm_demo :: "pqm_event list" where
  "pqm_demo = pqm_demo_search @ [ConnectDone 0 False]"

definition pqm_demo_launched :: pqm_state where
  "pqm_demo_launched = \<lparr>kset = {''X''},
     tasks = [\<lparr>t_cid = ''X'', t_phase = Launched, t_wg = 0\<rparr>],
     find_calls = [], connect_calls = [], connects_done = [], returned = False\<rparr>"

definition pqm_demo_connecting :: pqm_state where
  "pqm_demo_connecting = \<lparr>kset = {''X''},
     tasks = [\<lparr>t_cid = ''X'', t_phase = Waiting, t_wg = 1\<rparr>],
     find_calls = [''X''], connect_calls = [(''X'', ''Q'')], connects_done = [],
     returned = False\<rparr>"

definition pqm_demo_end :: pqm_state where
  "pqm_demo_end = \<lparr>kset = {''X''},
     tasks = [\<lparr>t_cid = ''X'', t_phase = Waiting, t_wg = 0\<rparr>],
     find_calls = [''X''], connect_calls = [(''X'', ''Q'')], connects_done = [''X''],
     returned = False\<rparr>"

definition pqm_demo_finished :: pqm_state where
  "pqm_demo_finished = \<lparr>kset = {},
     tasks = [],
     find_calls = [''X''], connect_calls = [(''X'', ''Q'')], connects_done = [''X''],
     returned = False\<rparr>"

subsection \<open>provideCollector (lines 139-170)\<close>

text \<open>
  The local variables of the collector and what it has done to \<^verbatim>\<open>bs.provideKeys\<close>.
  \<open>keysOut\<close> is \<open>True\<close> when the variable \<^verbatim>\<open>keysOut\<close> holds \<^verbatim>\<open>bs.provideKeys\<close> and
  \<open>False\<close> when it is nil. \<open>provideKeys\<close> lists the keys sent on the channel so far,
  oldest first, and \<open>provideKeys_closed\<close> says that the deferred
  \<^verbatim>\<open>close(bs.provideKeys)\<close> has run, that is, that the collector has returned.
\<close>

record pc_state =
  toProvide :: "cid list"
  nextKey :: cid
  keysOut :: bool
  provideKeys :: "cid list"
  provideKeys_closed :: bool

text \<open>The zero value of \<^verbatim>\<open>cid.Cid\<close>, which \<^verbatim>\<open>var nextKey cid.Cid\<close> starts with.\<close>

definition cid_Undef :: cid where
  "cid_Undef = []"

definition pc_init :: pc_state where
  "pc_init = \<lparr>toProvide = [], nextKey = cid_Undef, keysOut = False,
              provideKeys = [], provideKeys_closed = False\<rparr>"

text \<open>
  One event per case of the \<^verbatim>\<open>select\<close> of line 146. \<open>NewBlock k\<close>: a key is received
  from \<^verbatim>\<open>bs.newBlocks\<close>. \<open>NewBlocksClosed\<close>: the receive reports the channel closed.
  \<open>KeyOut\<close>: the send of \<^verbatim>\<open>nextKey\<close> on \<^verbatim>\<open>keysOut\<close> is taken; a send on a nil channel
  never proceeds, so the event needs \<open>keysOut\<close>. \<open>CollectorCtxDone\<close>: line 166.
\<close>

datatype pc_event = NewBlock cid | NewBlocksClosed | KeyOut | CollectorCtxDone

fun provideCollector_case :: "pc_state \<Rightarrow> pc_event \<Rightarrow> pc_state option" where
  "provideCollector_case s (NewBlock blkey) =
     (if \<not> keysOut s then Some (s\<lparr>nextKey := blkey, keysOut := True\<rparr>)
      else Some (s\<lparr>toProvide := toProvide s @ [blkey]\<rparr>))"
| "provideCollector_case s NewBlocksClosed = Some (s\<lparr>provideKeys_closed := True\<rparr>)"
| "provideCollector_case s KeyOut =
     (if keysOut s
      then (case toProvide s of
              k # ks \<Rightarrow> Some (s\<lparr>provideKeys := provideKeys s @ [nextKey s],
                                  nextKey := k, toProvide := ks\<rparr>)
            | [] \<Rightarrow> Some (s\<lparr>provideKeys := provideKeys s @ [nextKey s], keysOut := False\<rparr>))
      else None)"
| "provideCollector_case s CollectorCtxDone = Some (s\<lparr>provideKeys_closed := True\<rparr>)"

definition provideCollector_step :: "pc_state \<Rightarrow> pc_event \<Rightarrow> pc_state option" where
  "provideCollector_step s e = (if provideKeys_closed s then None else provideCollector_case s e)"

fun pc_run :: "pc_state \<Rightarrow> pc_event list \<Rightarrow> pc_state option" where
  "pc_run s [] = Some s"
| "pc_run s (e # es) = (case provideCollector_step s e of None \<Rightarrow> None | Some s' \<Rightarrow> pc_run s' es)"

text \<open>
  \<open>pc_inputs es\<close>: the keys received from \<^verbatim>\<open>bs.newBlocks\<close> in the run \<open>es\<close>, in order.
  \<open>pc_running es\<close>: in \<open>es\<close> the input is not seen closed and the context is not seen
  done. \<open>pc_pending s\<close>: the keys the collector holds, the armed one first.
\<close>

fun pc_inputs :: "pc_event list \<Rightarrow> cid list" where
  "pc_inputs [] = []"
| "pc_inputs (NewBlock k # es) = k # pc_inputs es"
| "pc_inputs (e # es) = pc_inputs es"

definition pc_running :: "pc_event list \<Rightarrow> bool" where
  "pc_running es = (NewBlocksClosed \<notin> set es \<and> CollectorCtxDone \<notin> set es)"

definition pc_pending :: "pc_state \<Rightarrow> cid list" where
  "pc_pending s = (if keysOut s then nextKey s # toProvide s else [])"

text \<open>
  The interleavings of producer and consumer steps that can happen while \<open>n\<close> keys
  are held: the producer may write a key at any time, the consumer can take a key only
  when one is held, and nothing follows the return of the collector.
\<close>

fun pc_feasible :: "nat \<Rightarrow> pc_event list \<Rightarrow> bool" where
  "pc_feasible n [] = True"
| "pc_feasible n (NewBlock k # es) = pc_feasible (Suc n) es"
| "pc_feasible n (KeyOut # es) = (0 < n \<and> pc_feasible (n - 1) es)"
| "pc_feasible n (NewBlocksClosed # es) = (es = [])"
| "pc_feasible n (CollectorCtxDone # es) = (es = [])"

text \<open>While the collector is idle (\<^verbatim>\<open>keysOut == nil\<close>) its queue is empty.\<close>

definition pc_wf :: "pc_state \<Rightarrow> bool" where
  "pc_wf s = (\<not> provideKeys_closed s \<and> (keysOut s \<or> toProvide s = []))"

text \<open>
  Two runs used to exercise the theorems: three keys arrive and the consumer takes one
  between the second and the third; in the second run the input is then seen closed.
\<close>

definition pc_demo :: "pc_event list" where
  "pc_demo = [NewBlock ''A'', NewBlock ''B'', KeyOut, NewBlock ''C'']"

definition pc_demo_state :: pc_state where
  "pc_demo_state = \<lparr>toProvide = [''C''], nextKey = ''B'', keysOut = True,
                      provideKeys = [''A''], provideKeys_closed = False\<rparr>"

definition pc_demo_close :: "pc_event list" where
  "pc_demo_close = pc_demo @ [NewBlocksClosed]"

subsection \<open>provideWorker (lines 93-137)\<close>

text \<open>
  The spawner loop of lines 117-136 is either at the \<^verbatim>\<open>select\<close> of line 121, or holds a
  key \<open>k\<close> at the \<^verbatim>\<open>select\<close> of line 129, or has returned. A goroutine running
  \<^verbatim>\<open>limitedGoProvide\<close> has either not called \<^verbatim>\<open>bs.network.Provide\<close> yet, or the
  call has returned, with an error or not, and the deferred functions are about to run.
\<close>

datatype spawner_phase = AtKeys | AtLimit cid | SpawnerReturned

datatype announce_phase = Started | Provided bool

record announce_task =
  a_key :: cid
  a_wid :: nat
  a_phase :: announce_phase

text \<open>
  \<open>limit\<close> is the number of tokens in the buffered channel \<^verbatim>\<open>limit\<close>, whose capacity
  \<^verbatim>\<open>provideWorkerMax\<close> is a constant declared outside \<^verbatim>\<open>workers.go\<close> and is a
  parameter \<open>W\<close> here. \<open>announces\<close> lists the \<^verbatim>\<open>limitedGoProvide\<close> goroutines that
  have not finished, \<open>provide_calls\<close> the calls made to \<^verbatim>\<open>bs.network.Provide\<close>,
  \<open>warnings\<close> counts the errors logged by line 111.
\<close>

record pw_state =
  limit :: nat
  spawner :: spawner_phase
  wid :: nat
  announces :: "announce_task list"
  provide_calls :: "cid list"
  warnings :: nat

definition pw_init :: pw_state where
  "pw_init = \<lparr>limit = 0, spawner = AtKeys, wid = 2, announces = [],
              provide_calls = [], warnings = 0\<rparr>"

text \<open>
  \<open>Closing\<close>: \<^verbatim>\<open>px.Closing()\<close> is taken, at line 122 or 130. \<open>KeyIn k\<close> and
  \<open>KeysClosed\<close>: the receive of line 124. \<open>Acquire\<close>: the send of line 132, which
  needs room in \<^verbatim>\<open>limit\<close>, followed by the \<^verbatim>\<open>go\<close> statement and \<^verbatim>\<open>wid++\<close>.
  \<open>ProvideReturns i failed\<close>: goroutine \<open>i\<close> calls \<^verbatim>\<open>bs.network.Provide\<close> and the
  call returns, with an error if \<open>failed\<close> (a timeout of the context is such an error).
  \<open>Release i\<close>: the deferred receive of line 100, which needs a token in \<^verbatim>\<open>limit\<close>;
  the goroutine is finished after it.
\<close>

datatype pw_event =
    Closing
  | KeyIn cid
  | KeysClosed
  | Acquire
  | ProvideReturns nat bool
  | Release nat

fun provideWorker_step :: "nat \<Rightarrow> pw_state \<Rightarrow> pw_event \<Rightarrow> pw_state option" where
  "provideWorker_step W s Closing =
     (if spawner s = SpawnerReturned then None else Some (s\<lparr>spawner := SpawnerReturned\<rparr>))"
| "provideWorker_step W s (KeyIn k) =
     (if spawner s = AtKeys then Some (s\<lparr>spawner := AtLimit k\<rparr>) else None)"
| "provideWorker_step W s KeysClosed =
     (if spawner s = AtKeys then Some (s\<lparr>spawner := SpawnerReturned\<rparr>) else None)"
| "provideWorker_step W s Acquire =
     (case spawner s of
        AtLimit k \<Rightarrow>
          if limit s < W
          then Some (s\<lparr>limit := Suc (limit s),
                       announces := announces s @ [\<lparr>a_key = k, a_wid = wid s, a_phase = Started\<rparr>],
                       spawner := AtKeys, wid := Suc (wid s)\<rparr>)
          else None
      | _ \<Rightarrow> None)"
| "provideWorker_step W s (ProvideReturns i failed) =
     (if i < length (announces s) \<and> a_phase (announces s ! i) = Started
      then Some (s\<lparr>announces := (announces s)[i := (announces s ! i)\<lparr>a_phase := Provided failed\<rparr>],
                   provide_calls := provide_calls s @ [a_key (announces s ! i)],
                   warnings := (if failed then Suc (warnings s) else warnings s)\<rparr>)
      else None)"
| "provideWorker_step W s (Release i) =
     (if i < length (announces s) \<and> 0 < limit s
      then (case a_phase (announces s ! i) of
              Provided failed \<Rightarrow>
                Some (s\<lparr>limit := limit s - 1, announces := remove_nth i (announces s)\<rparr>)
            | Started \<Rightarrow> None)
      else None)"

fun pw_run :: "nat \<Rightarrow> pw_state \<Rightarrow> pw_event list \<Rightarrow> pw_state option" where
  "pw_run W s [] = Some s"
| "pw_run W s (e # es) = (case provideWorker_step W s e of None \<Rightarrow> None | Some s' \<Rightarrow> pw_run W s' es)"

text \<open>
  A run with \<open>W = 1\<close>: key \<open>A\<close> gets the slot, key \<open>B\<close> waits at line 129 while the
  announce of \<open>A\<close> fails.
\<close>

definition pw_demo :: "pw_event list" where
  "pw_demo = [KeyIn ''A'', Acquire, KeyIn ''B'', ProvideReturns 0 True]"

definition pw_demo_state :: pw_state where
  "pw_demo_state = \<lparr>limit = 1, spawner = AtLimit ''B'', wid = 3,
     announces = [\<lparr>a_key = ''A'', a_wid = 2, a_phase = Provided True\<rparr>],
     provide_calls = [''A''], warnings = 1\<rparr>"

subsection \<open>select\<close>

text \<open>
  A \<^verbatim>\<open>select\<close> without default blocks while no case is ready and otherwise runs one
  of the ready cases, chosen by the scheduler: \<open>ready\<close> lists the ready cases in the
  order of the source and \<open>pick\<close> is the scheduler's choice.
\<close>

datatype 'a selected = Blocked | Chosen 'a

definition go_select :: "'a list \<Rightarrow> nat \<Rightarrow> 'a selected" where
  "go_select ready pick =
     (if ready = [] then Blocked else Chosen (ready ! (pick mod length ready)))"

definition when_ready :: "bool \<Rightarrow> 'a \<Rightarrow> 'a list" where
  "when_ready b c = (if b then [c] else [])"

subsection \<open>taskWorker (lines 50-91)\<close>

text \<open>
  What the worker reads of a block and of an envelope: \<^verbatim>\<open>block.Cid()\<close>,
  \<^verbatim>\<open>block.RawData()\<close>, \<^verbatim>\<open>envelope.Peer\<close> and \<^verbatim>\<open>envelope.Message.Blocks()\<close>.
\<close>

record block =
  block_Cid :: cid
  RawData :: "8 word list"

record envelope =
  Peer :: peer_ID
  Message_Blocks :: "block list"

text \<open>
  The message \<^verbatim>\<open>outgoing\<close> is known by the calls made on it: \<^verbatim>\<open>bsmsg.New(false)\<close>
  is the message with no block added and \<^verbatim>\<open>outgoing.AddBlock(block)\<close> records one more
  block added.
\<close>

type_synonym bsmsg = "block list"

definition bsmsg_New :: bsmsg where
  "bsmsg_New = []"

definition AddBlock :: "bsmsg \<Rightarrow> block \<Rightarrow> bsmsg" where
  "AddBlock outgoing b = outgoing @ [b]"

text \<open>
  The counters of lines 80-81; \<^verbatim>\<open>dataSent\<close> is added a \<^verbatim>\<open>uint64\<close>, and both wrap
  around at \<open>2 ^ 64\<close>.
\<close>

record counters =
  blocksSent :: "64 word"
  dataSent :: "64 word"

text \<open>
  The calls the worker makes on its collaborators and on the counter mutex.
  \<open>SendBlocks e failed\<close> is the call of line 77 with its outcome, which the worker does
  not receive; \<open>CountBlock n\<close> is one iteration of the loop of lines 79-82 for a block of
  \<open>n\<close> bytes.
\<close>

datatype effect =
    MessageSent peer_ID bsmsg
  | SendBlocks envelope bool
  | CounterLock
  | CountBlock nat
  | CounterUnlock

datatype tw_phase = AtOutbox | AtEnvelope | TaskWorkerReturned

record tw_state =
  tw_phase :: tw_phase
  tw_counters :: counters
  tw_effects :: "effect list"

text \<open>
  What the worker finds when it is scheduled: whether \<^verbatim>\<open>bs.engine.Outbox()\<close> has a
  channel to deliver, what the channel \<^verbatim>\<open>nextEnvelope\<close> it holds has (nothing yet, an
  envelope, or closed), whether \<^verbatim>\<open>ctx.Done()\<close> is closed, the scheduler's pick, and
  whether the transmission of line 77 fails.
\<close>

datatype nextEnvelope = NotYet | Offers envelope | Withdrawn

record tw_env =
  outbox_ready :: bool
  next_envelope :: nextEnvelope
  ctx_done :: bool
  pick :: nat
  send_fails :: bool

datatype tw_case = RecvCase | DoneCase

definition count_block :: "counters \<Rightarrow> block \<Rightarrow> counters" where
  "count_block c b =
     c\<lparr>blocksSent := blocksSent c + 1,
       dataSent := dataSent c + of_nat (length (RawData b))\<rparr>"

text \<open>Lines 62-83, for a received envelope.\<close>

definition send_envelope :: "bool \<Rightarrow> envelope \<Rightarrow> tw_state \<Rightarrow> tw_state" where
  "send_envelope failed e s =
     (let outgoing = foldl AddBlock bsmsg_New (Message_Blocks e)
      in s\<lparr>tw_effects := tw_effects s
               @ [MessageSent (Peer e) outgoing, SendBlocks e failed, CounterLock]
               @ map (\<lambda>b. CountBlock (length (RawData b))) (Message_Blocks e)
               @ [CounterUnlock],
           tw_counters := foldl count_block (tw_counters s) (Message_Blocks e)\<rparr>)"

text \<open>
  The cases of the \<^verbatim>\<open>select\<close> the worker is at that can proceed (line 55 with the
  cases of lines 56 and 87, line 57 with the cases of lines 58 and 84), and the one that
  runs.
\<close>

definition tw_ready :: "tw_env \<Rightarrow> tw_phase \<Rightarrow> tw_case list" where
  "tw_ready env ph =
     (case ph of
        AtOutbox \<Rightarrow> when_ready (outbox_ready env) RecvCase @ when_ready (ctx_done env) DoneCase
      | AtEnvelope \<Rightarrow>
          when_ready (next_envelope env \<noteq> NotYet) RecvCase @ when_ready (ctx_done env) DoneCase
      | TaskWorkerReturned \<Rightarrow> [])"

definition tw_chosen :: "tw_env \<Rightarrow> tw_state \<Rightarrow> tw_case selected" where
  "tw_chosen env s = go_select (tw_ready env (tw_phase s)) (pick env)"

text \<open>One pass through the \<^verbatim>\<open>select\<close> the worker is at.\<close>

definition taskWorker_step :: "tw_env \<Rightarrow> tw_state \<Rightarrow> tw_state" where
  "taskWorker_step env s =
     (case tw_phase s of
        AtOutbox \<Rightarrow>
          (case tw_chosen env s of
             Blocked \<Rightarrow> s
           | Chosen RecvCase \<Rightarrow> s\<lparr>tw_phase := AtEnvelope\<rparr>
           | Chosen DoneCase \<Rightarrow> s\<lparr>tw_phase := TaskWorkerReturned\<rparr>)
      | AtEnvelope \<Rightarrow>
          (case tw_chosen env s of
             Blocked \<Rightarrow> s
           | Chosen RecvCase \<Rightarrow>
               (case next_envelope env of
                  NotYet \<Rightarrow> s
                | Withdrawn \<Rightarrow> s\<lparr>tw_phase := AtOutbox\<rparr>
                | Offers e \<Rightarrow> (send_envelope (send_fails env) e s)\<lparr>tw_phase := AtOutbox\<rparr>)
           | Chosen DoneCase \<Rightarrow> s\<lparr>tw_phase := TaskWorkerReturned\<rparr>)
      | TaskWorkerReturned \<Rightarrow> s)"

text \<open>An envelope of two blocks, of three and two bytes, and a worker waiting for it.\<close>

definition tw_demo_envelope :: envelope where
  "tw_demo_envelope = \<lparr>Peer = ''Q'',
     Message_Blocks = [\<lparr>block_Cid = ''A'', RawData = [1, 2, 3]\<rparr>,
                       \<lparr>block_Cid = ''B'', RawData = [4, 5]\<rparr>]\<rparr>"

definition tw_demo_state :: tw_state where
  "tw_demo_state = \<lparr>tw_phase = AtEnvelope,
     tw_counters = \<lparr>blocksSent = 10, dataSent = 100\<rparr>, tw_effects = []\<rparr>"

definition tw_demo_env :: tw_env where
  "tw_demo_env = \<lparr>outbox_ready = False, next_envelope = Offers tw_demo_envelope,
     ctx_done = False, pick = 0, send_fails = True\<rparr>"

definition tw_demo_cancelled :: tw_env where
  "tw_demo_cancelled = \<lparr>outbox_ready = False, next_envelope = NotYet,
     ctx_done = True, pick = 0, send_fails = False\<rparr>"

definition tw_demo_withdrawn :: tw_env where
  "tw_demo_withdrawn = \<lparr>outbox_ready = False, next_envelope = Withdrawn,
     ctx_done = False, pick = 0, send_fails = False\<rparr>"

subsection \<open>rebroadcastWorker (lines 172-208)\<close>

text \<open>
  What the worker reads of an entry of \<^verbatim>\<open>bs.wm.CurrentWants()\<close>: its \<^verbatim>\<open>Cid\<close>.
\<close>

record wantlist_entry =
  Entry_Cid :: cid

text \<open>
  \<^verbatim>\<open>rand.Intn(n)\<close> is a function of the Go library \<^verbatim>\<open>math/rand\<close>, not of the
  repository; the worker calls it with \<open>n > 0\<close> only (line 193 skips the empty
  list), so its panic for \<open>n \<le> 0\<close> is left out. The functions below follow the
  library: \<^verbatim>\<open>Intn\<close> calls \<^verbatim>\<open>Int31n\<close> for \<open>n \<le> 1<<31 - 1\<close> and \<^verbatim>\<open>Int63n\<close>
  otherwise; both return the value masked with \<open>n - 1\<close> when \<open>n\<close> is a power of
  two, and otherwise draw until the value is at most
  \<open>max = (1 << 31) - 1 - (1<<31) % n\<close> (63 for 31 in \<^verbatim>\<open>Int63n\<close>) and return it
  modulo \<open>n\<close>. \<^verbatim>\<open>Int31()\<close> is \<^verbatim>\<open>Int63() >> 32\<close>. The argument \<open>ds\<close> lists
  the values that the generator's \<^verbatim>\<open>Int63()\<close> returns one after the other; the result
  is \<open>None\<close> when all of them have been drawn and rejected, that is, when the loop is
  still drawing.
\<close>

definition Int31 :: "63 word \<Rightarrow> nat" where
  "Int31 d = unat (drop_bit 32 d)"

fun Int31n :: "nat \<Rightarrow> 63 word list \<Rightarrow> nat option" where
  "Int31n n [] = None"
| "Int31n n (d # ds) =
     (if n AND (n - 1) = 0 then Some (Int31 d AND (n - 1))
      else (let max = 2 ^ 31 - 1 - 2 ^ 31 mod n
            in if Int31 d > max then Int31n n ds else Some (Int31 d mod n)))"

fun Int63n :: "nat \<Rightarrow> 63 word list \<Rightarrow> nat option" where
  "Int63n n [] = None"
| "Int63n n (d # ds) =
     (if n AND (n - 1) = 0 then Some (unat d AND (n - 1))
      else (let max = 2 ^ 63 - 1 - 2 ^ 63 mod n
            in if unat d > max then Int63n n ds else Some (unat d mod n)))"

definition rand_Intn :: "nat \<Rightarrow> 63 word list \<Rightarrow> nat option" where
  "rand_Intn n ds = (if n \<le> 2 ^ 31 - 1 then Int31n n ds else Int63n n ds)"

text \<open>
  The worker is at the \<^verbatim>\<open>select\<close> of line 184, or inside the call of line 199 with
  the entries read at line 192 (the library is still drawing), or at the send of line
  200 with the request for a content id (its \<^verbatim>\<open>Ctx\<close> is the worker's \<^verbatim>\<open>ctx\<close>), or
  has returned.
  \<open>findKeys_sent\<close> lists the content ids of the requests sent on \<^verbatim>\<open>bs.findKeys\<close>,
  \<open>metrics_logged\<close> the want counts logged by line 188, and \<open>timers_stopped\<close> says
  that the deferred \<^verbatim>\<open>Stop\<close> of both tickers and \<^verbatim>\<open>cancel\<close> have run.
\<close>

datatype rb_phase =
    AtTimers
  | InIntn "wantlist_entry list"
  | AtFindKeys cid
  | RebroadcastReturned

record rb_state =
  rb_phase :: rb_phase
  findKeys_sent :: "cid list"
  metrics_logged :: "nat list"
  timers_stopped :: bool

definition rb_init :: rb_state where
  "rb_init = \<lparr>rb_phase = AtTimers, findKeys_sent = [], metrics_logged = [],
              timers_stopped = False\<rparr>"

text \<open>
  What the worker finds when it is scheduled: which of \<^verbatim>\<open>tick.C\<close>,
  \<^verbatim>\<open>broadcastSignal.C\<close> and \<^verbatim>\<open>parent.Done()\<close> can be received from, whether
  \<^verbatim>\<open>bs.findKeys\<close> can take a value (a receiver is waiting or its buffer has room), the
  scheduler's pick, the results of \<^verbatim>\<open>bs.wm.WantCount()\<close> and
  \<^verbatim>\<open>bs.wm.CurrentWants()\<close>, and the values that the random generator returns.
\<close>

record rb_env =
  tick_ready :: bool
  broadcast_ready :: bool
  parent_done :: bool
  findKeys_ready :: bool
  rb_pick :: nat
  WantCount :: nat
  CurrentWants :: "wantlist_entry list"
  rand_Int63 :: "63 word list"

datatype rb_case = TickCase | BroadcastCase | ParentDoneCase

definition rb_chosen :: "rb_env \<Rightarrow> rb_case selected" where
  "rb_chosen env =
     go_select (when_ready (tick_ready env) TickCase
                @ when_ready (broadcast_ready env) BroadcastCase
                @ when_ready (parent_done env) ParentDoneCase) (rb_pick env)"

text \<open>
  Lines 199-203 once the entries are read: the call of \<^verbatim>\<open>rand.Intn\<close>, then the worker
  is at the send of the request for the entry at the index returned.
\<close>

definition pick_entry :: "rb_env \<Rightarrow> wantlist_entry list \<Rightarrow> rb_state \<Rightarrow> rb_state" where
  "pick_entry env entries s =
     (case rand_Intn (length entries) (rand_Int63 env) of
        None \<Rightarrow> s\<lparr>rb_phase := InIntn entries\<rparr>
      | Some i \<Rightarrow> s\<lparr>rb_phase := AtFindKeys (Entry_Cid (entries ! i))\<rparr>)"

text \<open>
  One pass of the worker: through the \<^verbatim>\<open>select\<close> if it is there, through the send of
  line 200 if it is there and the channel can take the value. The send is a plain
  statement, outside any \<^verbatim>\<open>select\<close>: nothing else can end it.
\<close>

definition rebroadcastWorker_step :: "rb_env \<Rightarrow> rb_state \<Rightarrow> rb_state" where
  "rebroadcastWorker_step env s =
     (case rb_phase s of
        AtTimers \<Rightarrow>
          (case rb_chosen env of
             Blocked \<Rightarrow> s
           | Chosen TickCase \<Rightarrow>
               (let n = WantCount env
                in if n > 0 then s\<lparr>metrics_logged := metrics_logged s @ [n]\<rparr> else s)
           | Chosen BroadcastCase \<Rightarrow>
               (let entries = CurrentWants env
                in if length entries = 0 then s else pick_entry env entries s)
           | Chosen ParentDoneCase \<Rightarrow>
               s\<lparr>rb_phase := RebroadcastReturned, timers_stopped := True\<rparr>)
      | InIntn entries \<Rightarrow> pick_entry env entries s
      | AtFindKeys c \<Rightarrow>
          (if findKeys_ready env
           then s\<lparr>rb_phase := AtTimers, findKeys_sent := findKeys_sent s @ [c]\<rparr>
           else s)
      | RebroadcastReturned \<Rightarrow> s)"

fun rb_run :: "rb_env list \<Rightarrow> rb_state \<Rightarrow> rb_state" where
  "rb_run [] s = s"
| "rb_run (env # envs) s = rb_run envs (rebroadcastWorker_step env s)"

text \<open>
  Five situations: the rebroadcast ticker fires with the want-list \<open>X, Y, Z\<close> and the
  generator returns \<open>4 << 32\<close>, so that \<^verbatim>\<open>rand.Intn(3)\<close> is \<open>4 % 3\<close>,
  \<^verbatim>\<open>bs.findKeys\<close> not taking values; the same with the generator returning
  \<open>1<<63 - 1\<close>, which \<^verbatim>\<open>rand.Intn(3)\<close> rejects; the parent context is done with
  \<^verbatim>\<open>bs.findKeys\<close> still not taking values (the provider query manager has returned);
  \<^verbatim>\<open>bs.findKeys\<close> takes a value; and the metrics ticker fires.
\<close>

definition rb_demo_broadcast :: rb_env where
  "rb_demo_broadcast = \<lparr>tick_ready = False, broadcast_ready = True, parent_done = False,
     findKeys_ready = False, rb_pick = 0, WantCount = 3,
     CurrentWants = [\<lparr>Entry_Cid = ''X''\<rparr>, \<lparr>Entry_Cid = ''Y''\<rparr>, \<lparr>Entry_Cid = ''Z''\<rparr>],
     rand_Int63 = [17179869184]\<rparr>"

definition rb_demo_redraw :: rb_env where
  "rb_demo_redraw = \<lparr>tick_ready = False, broadcast_ready = True, parent_done = False,
     findKeys_ready = False, rb_pick = 0, WantCount = 3,
     CurrentWants = [\<lparr>Entry_Cid = ''X''\<rparr>, \<lparr>Entry_Cid = ''Y''\<rparr>, \<lparr>Entry_Cid = ''Z''\<rparr>],
     rand_Int63 = [9223372036854775807]\<rparr>"

definition rb_demo_cancelled :: rb_env where
  "rb_demo_cancelled = \<lparr>tick_ready = True, broadcast_ready = True, parent_done = True,
     findKeys_ready = False, rb_pick = 2, WantCount = 3,
     CurrentWants = [\<lparr>Entry_Cid = ''X''\<rparr>, \<lparr>Entry_Cid = ''Y''\<rparr>, \<lparr>Entry_Cid = ''Z''\<rparr>],
     rand_Int63 = []\<rparr>"

definition rb_demo_accept :: rb_env where
  "rb_demo_accept = \<lparr>tick_ready = False, broadcast_ready = False, parent_done = False,
     findKeys_ready = True, rb_pick = 0, WantCount = 3,
     CurrentWants = [\<lparr>Entry_Cid = ''X''\<rparr>, \<lparr>Entry_Cid = ''Y''\<rparr>, \<lparr>Entry_Cid = ''Z''\<rparr>],
     rand_Int63 = []\<rparr>"

definition rb_demo_tick :: rb_env where
  "rb_demo_tick = \<lparr>tick_ready = True, broadcast_ready = False, parent_done = False,
     findKeys_ready = True, rb_pick = 0, WantCount = 3,
     CurrentWants = [\<lparr>Entry_Cid = ''X''\<rparr>, \<lparr>Entry_Cid = ''Y''\<rparr>, \<lparr>Entry_Cid = ''Z''\<rparr>],
     rand_Int63 = []\<rparr>"

section \<open>Properties\<close>

subsection \<open>Auxiliary facts on lists\<close>

lemma map_update_same: "i < length xs \<Longrightarrow> f y = f (xs ! i) \<Longrightarrow> map f (xs[i := y]) = map f xs"
  by (simp add: map_update list_update_same_conv)

lemma remove_nth_0: "remove_nth 0 (x # xs) = xs"
  by (simp add: remove_nth_def)

lemma remove_nth_Suc: "remove_nth (Suc j) (x # xs) = x # remove_nth j xs"
  by (simp add: remove_nth_def)

lemma set_remove_nth_distinct:
  "distinct xs \<Longrightarrow> i < length xs \<Longrightarrow> set (remove_nth i xs) = set xs - {xs ! i}"
proof (induction xs arbitrary: i)
  case Nil then show ?case by simp
next
  case (Cons x xs)
  show ?case
  proof (cases i)
    case 0 with Cons.prems show ?thesis by (simp add: remove_nth_0)
  next
    case (Suc j)
    with Cons.prems have j: "j < length xs" and x: "x \<notin> set xs" and d: "distinct xs" by simp_all
    from j have m: "xs ! j \<in> set xs" by simp
    with x have ne: "x \<noteq> xs ! j" by blast
    have "set (remove_nth j xs) = set xs - {xs ! j}" using d j by (rule Cons.IH)
    then have "set (x # remove_nth j xs) = insert x (set xs - {xs ! j})" by simp
    also have "\<dots> = set (x # xs) - {xs ! j}" using ne by auto
    finally show ?thesis by (simp add: Suc remove_nth_Suc)
  qed
qed

lemma distinct_remove_nth: "distinct xs \<Longrightarrow> distinct (remove_nth i xs)"
  by (simp add: remove_nth_def set_take_disj_set_drop_if_distinct)

lemma map_remove_nth: "map f (remove_nth i xs) = remove_nth i (map f xs)"
  by (simp add: remove_nth_def take_map drop_map)

lemma pqm_inv_init: "pqm_inv pqm_init"
  by (simp add: pqm_inv_def pqm_init_def cids_def)

lemma cids_phase_update:
  "i < length ts \<Longrightarrow> map t_cid (ts[i := (ts ! i)\<lparr>t_phase := p\<rparr>]) = map t_cid ts"
  by (rule map_update_same) simp_all

lemma cids_wg_update:
  "i < length ts \<Longrightarrow> map t_cid (ts[i := (ts ! i)\<lparr>t_wg := n\<rparr>]) = map t_cid ts"
  by (rule map_update_same) simp_all

lemma pqm_inv_step:
  assumes "pqm_inv s" and "providerQueryManager_step s e = Some s'"
  shows "pqm_inv s'"
proof (cases e)
  case (Finish i)
  with assms(2) have i: "i < length (tasks s)" and s': "s' = s\<lparr>kset := kset s - {t_cid (tasks s ! i)}, tasks := remove_nth i (tasks s)\<rparr>"
    by (auto split: if_splits)
  from assms(1) have d: "distinct (map t_cid (tasks s))" and k: "kset s = set (map t_cid (tasks s))"
    by (simp_all add: pqm_inv_def cids_def)
  from i have "set (remove_nth i (map t_cid (tasks s))) = set (map t_cid (tasks s)) - {t_cid (tasks s ! i)}"
    using set_remove_nth_distinct [OF d, of i] by simp
  with d k show ?thesis
    by (simp add: s' pqm_inv_def cids_def map_remove_nth distinct_remove_nth del: set_map)
next
  case (Dequeue r)
  with assms show ?thesis
    by (auto simp: pqm_inv_def cids_def split: if_splits)
next
  case ManagerCtxDone
  with assms show ?thesis
    by (auto simp: pqm_inv_def cids_def split: if_splits)
next
  case (CallFind i)
  with assms show ?thesis
    by (auto simp: pqm_inv_def cids_def cids_phase_update simp del: set_map split: if_splits)
next
  case (Provider i p)
  with assms show ?thesis
    by (auto simp: pqm_inv_def cids_def cids_wg_update simp del: set_map split: if_splits)
next
  case (ProvidersClosed i)
  with assms show ?thesis
    by (auto simp: pqm_inv_def cids_def cids_phase_update simp del: set_map split: if_splits)
next
  case (ConnectDone i f)
  with assms show ?thesis
    by (auto simp: pqm_inv_def cids_def cids_wg_update simp del: set_map split: if_splits)
qed

lemma pqm_inv_run: "pqm_inv s \<Longrightarrow> pqm_run s es = Some s' \<Longrightarrow> pqm_inv s'"
  by (induction es arbitrary: s) (auto split: option.splits dest: pqm_inv_step)

lemma filter_update_count:
  "i < length xs \<Longrightarrow>
   length (filter P (xs[i := y])) + (if P (xs ! i) then 1 else 0) =
   length (filter P xs) + (if P y then 1 else 0)"
proof (induction xs arbitrary: i)
  case Nil then show ?case by simp
next
  case (Cons x xs)
  show ?case
  proof (cases i)
    case 0 then show ?thesis by simp
  next
    case (Suc j)
    with Cons.prems have "j < length xs" by simp
    from Cons.IH [OF this] Suc show ?thesis by simp
  qed
qed

lemma filter_remove_nth_count:
  "i < length xs \<Longrightarrow>
   length (filter P (remove_nth i xs)) + (if P (xs ! i) then 1 else 0) = length (filter P xs)"
proof (induction xs arbitrary: i)
  case Nil then show ?case by simp
next
  case (Cons x xs)
  show ?case
  proof (cases i)
    case 0 then show ?thesis by (simp add: remove_nth_0)
  next
    case (Suc j)
    with Cons.prems have "j < length xs" by simp
    from Cons.IH [OF this] Suc show ?thesis by (simp add: remove_nth_Suc)
  qed
qed

lemma filter_distinct_key:
  "distinct (map f xs) \<Longrightarrow>
   length (filter (\<lambda>t. f t = c \<and> Q t) xs) = (if \<exists>t\<in>set xs. f t = c \<and> Q t then 1 else 0)"
proof (induction xs)
  case Nil then show ?case by simp
next
  case (Cons x xs)
  then have IH: "length (filter (\<lambda>t. f t = c \<and> Q t) xs) = (if \<exists>t\<in>set xs. f t = c \<and> Q t then 1 else 0)"
    and nx: "f x \<notin> f ` set xs" by simp_all
  show ?case
  proof (cases "f x = c")
    case True
    have "\<forall>t\<in>set xs. f t \<noteq> c"
    proof
      fix t assume "t \<in> set xs"
      then have "f t \<in> f ` set xs" by (rule imageI)
      with nx show "f t \<noteq> c" unfolding True [symmetric] by metis
    qed
    then have "filter (\<lambda>t. f t = c \<and> Q t) xs = []" and "\<not> (\<exists>t\<in>set xs. f t = c \<and> Q t)"
      by (auto simp: filter_empty_conv)
    with True show ?thesis by simp
  next
    case False
    with IH show ?thesis by simp
  qed
qed

lemma pending_calls_uncalled:
  "pqm_inv s \<Longrightarrow> pending_calls c s = (if uncalled c s then 1 else 0)"
  unfolding pqm_inv_def cids_def pending_calls_def uncalled_def
  by (simp add: filter_distinct_key)

lemma calls_due_step:
  assumes inv: "pqm_inv s" and fl: "in_flight c s" and st: "providerQueryManager_step s e = Some s'"
  shows "calls_due c s' = calls_due c s"
proof (cases e)
  case (Dequeue r)
  from inv fl have "c \<in> kset s" by (simp add: pqm_inv_def in_flight_def)
  with st Dequeue show ?thesis
    by (auto simp: calls_due_def pending_calls_def split: if_splits)
next
  case ManagerCtxDone
  with st show ?thesis by (auto simp: calls_due_def pending_calls_def split: if_splits)
next
  case (CallFind i)
  let ?P = "\<lambda>t. t_cid t = c \<and> t_phase t = Launched"
  from st CallFind have i: "i < length (tasks s)" and ph: "t_phase (tasks s ! i) = Launched"
    and s': "s' = s\<lparr>tasks := (tasks s)[i := (tasks s ! i)\<lparr>t_phase := Ranging\<rparr>],
                      find_calls := find_calls s @ [t_cid (tasks s ! i)]\<rparr>"
    by (auto split: if_splits)
  from filter_update_count [OF i, of ?P "(tasks s ! i)\<lparr>t_phase := Ranging\<rparr>"] ph
  have "length (filter ?P ((tasks s)[i := (tasks s ! i)\<lparr>t_phase := Ranging\<rparr>]))
          + (if t_cid (tasks s ! i) = c then 1 else 0) = length (filter ?P (tasks s))"
    by simp
  then show ?thesis by (simp add: s' calls_due_def pending_calls_def split: if_splits)
next
  case (Provider i p)
  let ?P = "\<lambda>t. t_cid t = c \<and> t_phase t = Launched"
  from st Provider have i: "i < length (tasks s)"
    and s': "s' = s\<lparr>tasks := (tasks s)[i := (tasks s ! i)\<lparr>t_wg := Suc (t_wg (tasks s ! i))\<rparr>],
                      connect_calls := connect_calls s @ [(t_cid (tasks s ! i), p)]\<rparr>"
    by (auto split: if_splits)
  from filter_update_count [OF i, of ?P "(tasks s ! i)\<lparr>t_wg := Suc (t_wg (tasks s ! i))\<rparr>"]
  have "length (filter ?P ((tasks s)[i := (tasks s ! i)\<lparr>t_wg := Suc (t_wg (tasks s ! i))\<rparr>]))
          = length (filter ?P (tasks s))"
    by simp
  then show ?thesis by (simp add: s' calls_due_def pending_calls_def)
next
  case (ProvidersClosed i)
  let ?P = "\<lambda>t. t_cid t = c \<and> t_phase t = Launched"
  from st ProvidersClosed have i: "i < length (tasks s)" and ph: "t_phase (tasks s ! i) = Ranging"
    and s': "s' = s\<lparr>tasks := (tasks s)[i := (tasks s ! i)\<lparr>t_phase := Waiting\<rparr>]\<rparr>"
    by (auto split: if_splits)
  from filter_update_count [OF i, of ?P "(tasks s ! i)\<lparr>t_phase := Waiting\<rparr>"] ph
  have "length (filter ?P ((tasks s)[i := (tasks s ! i)\<lparr>t_phase := Waiting\<rparr>]))
          = length (filter ?P (tasks s))"
    by simp
  then show ?thesis by (simp add: s' calls_due_def pending_calls_def)
next
  case (ConnectDone i failed)
  let ?P = "\<lambda>t. t_cid t = c \<and> t_phase t = Launched"
  from st ConnectDone have i: "i < length (tasks s)"
    and s': "s' = s\<lparr>tasks := (tasks s)[i := (tasks s ! i)\<lparr>t_wg := t_wg (tasks s ! i) - 1\<rparr>],
                      connects_done := connects_done s @ [t_cid (tasks s ! i)]\<rparr>"
    by (auto split: if_splits)
  from filter_update_count [OF i, of ?P "(tasks s ! i)\<lparr>t_wg := t_wg (tasks s ! i) - 1\<rparr>"]
  have "length (filter ?P ((tasks s)[i := (tasks s ! i)\<lparr>t_wg := t_wg (tasks s ! i) - 1\<rparr>]))
          = length (filter ?P (tasks s))"
    by simp
  then show ?thesis by (simp add: s' calls_due_def pending_calls_def)
next
  case (Finish i)
  let ?P = "\<lambda>t. t_cid t = c \<and> t_phase t = Launched"
  from st Finish have i: "i < length (tasks s)" and ph: "t_phase (tasks s ! i) = Waiting"
    and s': "s' = s\<lparr>kset := kset s - {t_cid (tasks s ! i)}, tasks := remove_nth i (tasks s)\<rparr>"
    by (auto split: if_splits)
  from filter_remove_nth_count [OF i, of ?P] ph
  have "length (filter ?P (remove_nth i (tasks s))) = length (filter ?P (tasks s))"
    by simp
  then show ?thesis by (simp add: s' calls_due_def pending_calls_def)
qed

lemma calls_due_run:
  "pqm_inv s \<Longrightarrow> in_flight_during c s es \<Longrightarrow> pqm_run s es = Some s' \<Longrightarrow>
   calls_due c s' = calls_due c s \<and> in_flight c s'"
proof (induction es arbitrary: s)
  case Nil then show ?case by simp
next
  case (Cons e es)
  from Cons.prems(2) obtain s1 where fl: "in_flight c s" and st: "providerQueryManager_step s e = Some s1"
    and rest: "in_flight_during c s1 es"
    by (auto split: option.splits)
  from Cons.prems(3) st have run: "pqm_run s1 es = Some s'" by simp
  from Cons.IH [OF pqm_inv_step [OF Cons.prems(1) st] rest run]
    calls_due_step [OF Cons.prems(1) fl st]
  show ?case by simp
qed

lemma not_in_flight_pending: "\<not> in_flight c s \<Longrightarrow> pending_calls c s = 0"
  by (auto simp: in_flight_def cids_def pending_calls_def filter_empty_conv)

lemma finish_cid_not_uncalled:
  assumes inv: "pqm_inv s" and st: "providerQueryManager_step s (Finish i) = Some s'"
  shows "\<not> uncalled (t_cid (tasks s ! i)) s"
proof
  assume "uncalled (t_cid (tasks s ! i)) s"
  then obtain t where t: "t \<in> set (tasks s)" and c: "t_cid t = t_cid (tasks s ! i)"
    and ph: "t_phase t = Launched"
    by (auto simp: uncalled_def)
  from st have i: "i < length (tasks s)" and w: "t_phase (tasks s ! i) = Waiting"
    by (auto split: if_splits)
  from inv have "inj_on t_cid (set (tasks s))"
    by (simp add: pqm_inv_def cids_def distinct_map)
  with t c i have "t = tasks s ! i" by (auto dest: inj_onD)
  with ph w show False by simp
qed

lemma sum_update_count:
  fixes g :: "'a \<Rightarrow> nat"
  shows "i < length xs \<Longrightarrow>
   sum_list (map g (xs[i := y])) + g (xs ! i) = sum_list (map g xs) + g y"
proof (induction xs arbitrary: i)
  case Nil then show ?case by simp
next
  case (Cons x xs)
  show ?case
  proof (cases i)
    case 0 then show ?thesis by simp
  next
    case (Suc j)
    with Cons.prems have "j < length xs" by simp
    from Cons.IH [OF this] Suc show ?thesis by simp
  qed
qed

lemma sum_remove_nth_count:
  fixes g :: "'a \<Rightarrow> nat"
  shows "i < length xs \<Longrightarrow>
   sum_list (map g (remove_nth i xs)) + g (xs ! i) = sum_list (map g xs)"
proof (induction xs arbitrary: i)
  case Nil then show ?case by simp
next
  case (Cons x xs)
  show ?case
  proof (cases i)
    case 0 then show ?thesis by (simp add: remove_nth_0)
  next
    case (Suc j)
    with Cons.prems have "j < length xs" by simp
    from Cons.IH [OF this] Suc show ?thesis by (simp add: remove_nth_Suc)
  qed
qed

lemma sum_absent_key:
  fixes h :: "'a \<Rightarrow> nat"
  shows "c \<notin> f ` set xs \<Longrightarrow> sum_list (map (\<lambda>t. if f t = c then h t else 0) xs) = 0"
  by (induction xs) auto

lemma sum_distinct_key:
  fixes h :: "'a \<Rightarrow> nat"
  shows "distinct (map f xs) \<Longrightarrow> i < length xs \<Longrightarrow>
   sum_list (map (\<lambda>t. if f t = f (xs ! i) then h t else 0) xs) = h (xs ! i)"
proof (induction xs arbitrary: i)
  case Nil then show ?case by simp
next
  case (Cons x xs)
  then have nx: "f x \<notin> f ` set xs" and d: "distinct (map f xs)" by simp_all
  show ?case
  proof (cases i)
    case 0
    with sum_absent_key [OF nx, of h] show ?thesis by simp
  next
    case (Suc j)
    with Cons.prems have j: "j < length xs" by simp
    then have "f (xs ! j) \<in> f ` set xs" by simp
    with nx have "f x \<noteq> f (xs ! j)" by metis
    with Cons.IH [OF d j] Suc show ?thesis by simp
  qed
qed

lemma connects_init:
  "connects_started c pqm_init = connects_finished c pqm_init + connects_pending c pqm_init"
  by (simp add: connects_started_def connects_finished_def connects_pending_def pqm_init_def)

lemma connects_step:
  assumes st: "providerQueryManager_step s e = Some s'"
    and bal: "connects_started c s = connects_finished c s + connects_pending c s"
  shows "connects_started c s' = connects_finished c s' + connects_pending c s'"
proof (cases e)
  case (Dequeue r)
  with st bal show ?thesis
    by (auto simp: connects_started_def connects_finished_def connects_pending_def
        split: if_splits)
next
  case ManagerCtxDone
  with st bal show ?thesis
    by (auto simp: connects_started_def connects_finished_def connects_pending_def
        split: if_splits)
next
  case (CallFind i)
  let ?g = "\<lambda>t. if t_cid t = c then t_wg t else 0"
  from st CallFind have i: "i < length (tasks s)"
    and s': "s' = s\<lparr>tasks := (tasks s)[i := (tasks s ! i)\<lparr>t_phase := Ranging\<rparr>],
                      find_calls := find_calls s @ [t_cid (tasks s ! i)]\<rparr>"
    by (auto split: if_splits)
  from sum_update_count [OF i, of ?g "(tasks s ! i)\<lparr>t_phase := Ranging\<rparr>"]
  have "sum_list (map ?g ((tasks s)[i := (tasks s ! i)\<lparr>t_phase := Ranging\<rparr>]))
      = sum_list (map ?g (tasks s))"
    by (simp split: if_splits)
  with bal show ?thesis
    by (simp add: s' connects_started_def connects_finished_def connects_pending_def)
next
  case (Provider i p)
  let ?g = "\<lambda>t. if t_cid t = c then t_wg t else 0"
  from st Provider have i: "i < length (tasks s)"
    and s': "s' = s\<lparr>tasks := (tasks s)[i := (tasks s ! i)\<lparr>t_wg := Suc (t_wg (tasks s ! i))\<rparr>],
                      connect_calls := connect_calls s @ [(t_cid (tasks s ! i), p)]\<rparr>"
    by (auto split: if_splits)
  from sum_update_count [OF i, of ?g "(tasks s ! i)\<lparr>t_wg := Suc (t_wg (tasks s ! i))\<rparr>"]
  have "sum_list (map ?g ((tasks s)[i := (tasks s ! i)\<lparr>t_wg := Suc (t_wg (tasks s ! i))\<rparr>]))
      = sum_list (map ?g (tasks s)) + (if t_cid (tasks s ! i) = c then 1 else 0)"
    by (simp split: if_splits)
  with bal show ?thesis
    by (simp add: s' connects_started_def connects_finished_def connects_pending_def)
next
  case (ProvidersClosed i)
  let ?g = "\<lambda>t. if t_cid t = c then t_wg t else 0"
  from st ProvidersClosed have i: "i < length (tasks s)"
    and s': "s' = s\<lparr>tasks := (tasks s)[i := (tasks s ! i)\<lparr>t_phase := Waiting\<rparr>]\<rparr>"
    by (auto split: if_splits)
  from sum_update_count [OF i, of ?g "(tasks s ! i)\<lparr>t_phase := Waiting\<rparr>"]
  have "sum_list (map ?g ((tasks s)[i := (tasks s ! i)\<lparr>t_phase := Waiting\<rparr>]))
      = sum_list (map ?g (tasks s))"
    by (simp split: if_splits)
  with bal show ?thesis
    by (simp add: s' connects_started_def connects_finished_def connects_pending_def)
next
  case (ConnectDone i failed)
  let ?g = "\<lambda>t. if t_cid t = c then t_wg t else 0"
  from st ConnectDone have i: "i < length (tasks s)" and pos: "0 < t_wg (tasks s ! i)"
    and s': "s' = s\<lparr>tasks := (tasks s)[i := (tasks s ! i)\<lparr>t_wg := t_wg (tasks s ! i) - 1\<rparr>],
                      connects_done := connects_done s @ [t_cid (tasks s ! i)]\<rparr>"
    by (auto split: if_splits)
  from sum_update_count [OF i, of ?g "(tasks s ! i)\<lparr>t_wg := t_wg (tasks s ! i) - 1\<rparr>"] pos
  have "sum_list (map ?g ((tasks s)[i := (tasks s ! i)\<lparr>t_wg := t_wg (tasks s ! i) - 1\<rparr>]))
      + (if t_cid (tasks s ! i) = c then 1 else 0) = sum_list (map ?g (tasks s))"
    by (simp split: if_splits)
  with bal show ?thesis
    by (simp add: s' connects_started_def connects_finished_def connects_pending_def
        split: if_splits)
next
  case (Finish i)
  let ?g = "\<lambda>t. if t_cid t = c then t_wg t else 0"
  from st Finish have i: "i < length (tasks s)" and z: "t_wg (tasks s ! i) = 0"
    and s': "s' = s\<lparr>kset := kset s - {t_cid (tasks s ! i)}, tasks := remove_nth i (tasks s)\<rparr>"
    by (auto split: if_splits)
  from sum_remove_nth_count [OF i, of ?g] z
  have "sum_list (map ?g (remove_nth i (tasks s))) = sum_list (map ?g (tasks s))"
    by (simp split: if_splits)
  with bal show ?thesis
    by (simp add: s' connects_started_def connects_finished_def connects_pending_def)
qed

lemma connects_run:
  "pqm_run s es = Some s' \<Longrightarrow>
   connects_started c s = connects_finished c s + connects_pending c s \<Longrightarrow>
   connects_started c s' = connects_finished c s' + connects_pending c s'"
proof (induction es arbitrary: s)
  case Nil then show ?case by simp
next
  case (Cons e es)
  from Cons.prems(1) obtain s1 where st: "providerQueryManager_step s e = Some s1"
    and run: "pqm_run s1 es = Some s'"
    by (auto split: option.splits)
  from Cons.IH [OF run connects_step [OF st Cons.prems(2)]] show ?case .
qed

lemma connects_pending_task:
  assumes "pqm_inv s" and "i < length (tasks s)"
  shows "connects_pending (t_cid (tasks s ! i)) s = t_wg (tasks s ! i)"
  using assms unfolding pqm_inv_def cids_def connects_pending_def
  by (simp add: sum_distinct_key)

lemma connects_pending_absent: "\<not> in_flight c s \<Longrightarrow> connects_pending c s = 0"
  unfolding in_flight_def cids_def connects_pending_def
  by (rule sum_absent_key) simp

lemma pqm_run_append:
  "pqm_run s (es @ es') = (case pqm_run s es of None \<Rightarrow> None | Some s1 \<Rightarrow> pqm_run s1 es')"
  by (induction es arbitrary: s) (simp_all split: option.splits)

lemma pqm_run_trans:
  "pqm_run s es = Some s1 \<Longrightarrow> pqm_run s1 es' = Some s2 \<Longrightarrow> pqm_run s (es @ es') = Some s2"
  by (simp add: pqm_run_append)

lemma in_flight_during_start: "in_flight_during c s es \<Longrightarrow> in_flight c s"
  by (cases es) simp_all

lemma in_flight_during_append:
  "in_flight_during c s es \<Longrightarrow> pqm_run s es = Some s1 \<Longrightarrow> in_flight_during c s1 es' \<Longrightarrow>
   in_flight_during c s (es @ es')"
proof (induction es arbitrary: s)
  case Nil then show ?case by simp
next
  case (Cons e es)
  from Cons.prems(1) obtain s2 where fl: "in_flight c s"
    and st: "providerQueryManager_step s e = Some s2" and rest: "in_flight_during c s2 es"
    by (auto split: option.splits)
  from Cons.prems(2) st have run: "pqm_run s2 es = Some s1" by simp
  from Cons.IH [OF rest run Cons.prems(3)] fl st show ?case by simp
qed

lemma in_flight_task_update:
  assumes "i < length (tasks s)" and "t_cid t = t_cid (tasks s ! i)" and "in_flight c s"
    and "tasks s' = (tasks s)[i := t]"
  shows "in_flight c s'"
proof -
  from assms(1,2) have "map t_cid ((tasks s)[i := t]) = map t_cid (tasks s)"
    by (rule map_update_same)
  with assms(3,4) show ?thesis by (simp add: in_flight_def cids_def del: set_map)
qed

lemma pqm_drain_connects:
  "i < length (tasks s) \<Longrightarrow> t_wg (tasks s ! i) = n \<Longrightarrow> in_flight c s \<Longrightarrow>
   \<exists>s'. pqm_run s (replicate n (ConnectDone i b)) = Some s' \<and>
        in_flight_during c s (replicate n (ConnectDone i b)) \<and>
        length (tasks s') = length (tasks s) \<and>
        t_cid (tasks s' ! i) = t_cid (tasks s ! i) \<and>
        t_phase (tasks s' ! i) = t_phase (tasks s ! i) \<and> t_wg (tasks s' ! i) = 0 \<and>
        in_flight c s'"
proof (induction n arbitrary: s)
  case 0
  then show ?case by simp
next
  case (Suc n)
  define s1 where "s1 = s\<lparr>tasks := (tasks s)[i := (tasks s ! i)\<lparr>t_wg := t_wg (tasks s ! i) - 1\<rparr>],
                      connects_done := connects_done s @ [t_cid (tasks s ! i)]\<rparr>"
  from Suc.prems have st: "providerQueryManager_step s (ConnectDone i b) = Some s1"
    by (simp add: s1_def)
  from Suc.prems have l: "i < length (tasks s1)" and w: "t_wg (tasks s1 ! i) = n"
    and c: "t_cid (tasks s1 ! i) = t_cid (tasks s ! i)"
    and p: "t_phase (tasks s1 ! i) = t_phase (tasks s ! i)"
    and len: "length (tasks s1) = length (tasks s)"
    by (simp_all add: s1_def)
  have fl: "in_flight c s1"
    by (rule in_flight_task_update [OF Suc.prems(1) _ Suc.prems(3)]) (simp_all add: s1_def)
  from Suc.IH [OF l w fl] obtain s' where
    "pqm_run s1 (replicate n (ConnectDone i b)) = Some s'"
    "in_flight_during c s1 (replicate n (ConnectDone i b))"
    "length (tasks s') = length (tasks s1)" "t_cid (tasks s' ! i) = t_cid (tasks s1 ! i)"
    "t_phase (tasks s' ! i) = t_phase (tasks s1 ! i)" "t_wg (tasks s' ! i) = 0"
    "in_flight c s'"
    by blast
  with st c p len Suc.prems(3) show ?case by simp
qed

lemma pqm_to_waiting:
  assumes i: "i < length (tasks s)" and fl: "in_flight c s"
  shows "\<exists>s'. pqm_run s ((if t_phase (tasks s ! i) = Launched then [CallFind i] else [])
                  @ (if t_phase (tasks s ! i) = Waiting then [] else [ProvidersClosed i])) = Some s' \<and>
        in_flight_during c s ((if t_phase (tasks s ! i) = Launched then [CallFind i] else [])
                  @ (if t_phase (tasks s ! i) = Waiting then [] else [ProvidersClosed i])) \<and>
        length (tasks s') = length (tasks s) \<and>
        t_cid (tasks s' ! i) = t_cid (tasks s ! i) \<and>
        t_phase (tasks s' ! i) = Waiting \<and> t_wg (tasks s' ! i) = t_wg (tasks s ! i) \<and>
        in_flight c s'"
proof (cases "t_phase (tasks s ! i)")
  case Waiting
  with i fl show ?thesis by simp
next
  case Ranging
  define s1 where "s1 = s\<lparr>tasks := (tasks s)[i := (tasks s ! i)\<lparr>t_phase := Waiting\<rparr>]\<rparr>"
  have fl1: "in_flight c s1"
    by (rule in_flight_task_update [OF i _ fl]) (simp_all add: s1_def)
  from Ranging i have "providerQueryManager_step s (ProvidersClosed i) = Some s1"
    by (simp add: s1_def)
  with Ranging i fl fl1 show ?thesis by (simp add: s1_def)
next
  case Launched
  define s1 where "s1 = s\<lparr>tasks := (tasks s)[i := (tasks s ! i)\<lparr>t_phase := Ranging\<rparr>],
                   find_calls := find_calls s @ [t_cid (tasks s ! i)]\<rparr>"
  define s2 where "s2 = s1\<lparr>tasks := (tasks s1)[i := (tasks s1 ! i)\<lparr>t_phase := Waiting\<rparr>]\<rparr>"
  have fl1: "in_flight c s1"
    by (rule in_flight_task_update [OF i _ fl]) (simp_all add: s1_def)
  from i have i1: "i < length (tasks s1)" by (simp add: s1_def)
  have fl2: "in_flight c s2"
    by (rule in_flight_task_update [OF i1 _ fl1]) (simp_all add: s2_def)
  from Launched i have st1: "providerQueryManager_step s (CallFind i) = Some s1"
    by (simp add: s1_def)
  from i have st2: "providerQueryManager_step s1 (ProvidersClosed i) = Some s2"
    by (simp add: s1_def s2_def)
  from i have "length (tasks s2) = length (tasks s)" "t_cid (tasks s2 ! i) = t_cid (tasks s ! i)"
    "t_phase (tasks s2 ! i) = Waiting" "t_wg (tasks s2 ! i) = t_wg (tasks s ! i)"
    by (simp_all add: s1_def s2_def)
  with Launched st1 st2 fl fl1 fl2 show ?thesis by simp
qed

lemma pqm_reach_finish:
  assumes i: "i < length (tasks s)" and fl: "in_flight c s"
  shows "\<exists>pre s1. pqm_finish_events i (tasks s ! i) = pre @ [Finish i] \<and>
        pqm_run s pre = Some s1 \<and> in_flight_during c s pre \<and>
        i < length (tasks s1) \<and> t_cid (tasks s1 ! i) = t_cid (tasks s ! i) \<and>
        t_phase (tasks s1 ! i) = Waiting \<and> t_wg (tasks s1 ! i) = 0"
proof -
  let ?a = "(if t_phase (tasks s ! i) = Launched then [CallFind i] else [])
            @ (if t_phase (tasks s ! i) = Waiting then [] else [ProvidersClosed i])"
  let ?b = "replicate (t_wg (tasks s ! i)) (ConnectDone i False)"
  from pqm_to_waiting [OF i fl] obtain s1 where r1: "pqm_run s ?a = Some s1"
    and f1: "in_flight_during c s ?a" and l1: "length (tasks s1) = length (tasks s)"
    and c1: "t_cid (tasks s1 ! i) = t_cid (tasks s ! i)"
    and p1: "t_phase (tasks s1 ! i) = Waiting" and w1: "t_wg (tasks s1 ! i) = t_wg (tasks s ! i)"
    and fl1: "in_flight c s1"
    by blast
  from l1 i have i1: "i < length (tasks s1)" by simp
  from pqm_drain_connects [OF i1 w1 fl1, of False] obtain s2 where
    r2: "pqm_run s1 ?b = Some s2" and f2: "in_flight_during c s1 ?b"
    and l2: "length (tasks s2) = length (tasks s1)"
    and c2: "t_cid (tasks s2 ! i) = t_cid (tasks s1 ! i)"
    and p2: "t_phase (tasks s2 ! i) = t_phase (tasks s1 ! i)" and w2: "t_wg (tasks s2 ! i) = 0"
    by blast
  have ev: "pqm_finish_events i (tasks s ! i) = (?a @ ?b) @ [Finish i]"
    by (simp add: pqm_finish_events_def)
  have run: "pqm_run s (?a @ ?b) = Some s2" using r1 r2 by (rule pqm_run_trans)
  have fd: "in_flight_during c s (?a @ ?b)" using f1 r1 f2 by (rule in_flight_during_append)
  from l2 i1 c2 c1 p2 p1 w2 have "i < length (tasks s2)"
    "t_cid (tasks s2 ! i) = t_cid (tasks s ! i)" "t_phase (tasks s2 ! i) = Waiting"
    "t_wg (tasks s2 ! i) = 0" by simp_all
  with ev run fd show ?thesis by blast
qed

text \<open>
  C9. A request whose context is already done when the manager dequeues it is dropped:
  the step succeeds (no error) and the state of the manager, that is the active set, the
  search tasks and the calls made to the routing collaborator, is the one before.
\<close>

theorem pqm_drops_cancelled_request:
  assumes "Ctx_done e" and "\<not> returned s"
  shows "providerQueryManager_step s (Dequeue e) = Some s"
  using assms by simp

theorem pqm_drops_cancelled_request_witness:
  "Ctx_done \<lparr>Cid = ''X'', Ctx_done = True\<rparr> \<and> \<not> returned pqm_init \<and>
   providerQueryManager_step pqm_init (Dequeue \<lparr>Cid = ''X'', Ctx_done = True\<rparr>) = Some pqm_init \<and>
   kset pqm_init = {} \<and> tasks pqm_init = [] \<and> find_calls pqm_init = []"
  using pqm_drops_cancelled_request [of "\<lparr>Cid = ''X'', Ctx_done = True\<rparr>" pqm_init]
  by (simp add: pqm_init_def)

lemma pqm_window:
  assumes reach: "pqm_run pqm_init es0 = Some s0"
    and fresh: "\<not> in_flight C s0"
    and launch: "providerQueryManager_step s0 (Dequeue \<lparr>Cid = C, Ctx_done = False\<rparr>) = Some s1"
    and win: "in_flight_during C s1 es"
    and run: "pqm_run s1 es = Some s"
  shows "pqm_inv s" and "in_flight C s"
    and "count_list (find_calls s) C =
           count_list (find_calls s0) C + (if uncalled C s then 0 else 1)"
    and "connects_started c s = connects_finished c s + connects_pending c s"
proof -
  have inv0: "pqm_inv s0" using pqm_inv_init reach by (rule pqm_inv_run)
  have inv1: "pqm_inv s1" using inv0 launch by (rule pqm_inv_step)
  show inv: "pqm_inv s" using inv1 run by (rule pqm_inv_run)
  from inv0 fresh have nk: "C \<notin> kset s0" by (simp add: pqm_inv_def in_flight_def)
  with launch have s1: "s1 = s0\<lparr>kset := insert C (kset s0),
      tasks := tasks s0 @ [\<lparr>t_cid = C, t_phase = Launched, t_wg = 0\<rparr>]\<rparr>"
    by (auto split: if_splits)
  from fresh have "pending_calls C s0 = 0" by (rule not_in_flight_pending)
  then have due1: "calls_due C s1 = count_list (find_calls s0) C + 1"
    by (simp add: s1 calls_due_def pending_calls_def)
  from calls_due_run [OF inv1 win run] have due: "calls_due C s = calls_due C s1"
    and fl: "in_flight C s" by simp_all
  show "in_flight C s" by (rule fl)
  from due due1 have "count_list (find_calls s) C + pending_calls C s
      = count_list (find_calls s0) C + 1"
    by (simp add: calls_due_def)
  moreover from fl have "pending_calls C s \<le> 1"
    by (simp add: pending_calls_uncalled [OF inv])
  ultimately show "count_list (find_calls s) C =
      count_list (find_calls s0) C + (if uncalled C s then 0 else 1)"
    by (simp add: pending_calls_uncalled [OF inv] split: if_splits)
  have "connects_started c s0 = connects_finished c s0 + connects_pending c s0"
    using reach connects_init by (rule connects_run)
  with launch have "connects_started c s1 = connects_finished c s1 + connects_pending c s1"
    by (rule connects_step)
  with run show "connects_started c s = connects_finished c s + connects_pending c s"
    by (rule connects_run)
qed

lemma in_flight_index:
  "in_flight c s \<Longrightarrow> \<exists>i. i < length (tasks s) \<and> t_cid (tasks s ! i) = c"
  unfolding in_flight_def cids_def
  by (metis in_set_conv_nth length_map nth_map)

text \<open>
  C1. Deduplication of provider searches. Take any reachable state \<open>s0\<close> with no
  search for \<open>C\<close> in flight, a request for \<open>C\<close> (context not done) that the manager
  dequeues there, and any events \<open>es\<close> after it, with any number of further requests
  for \<open>C\<close> among them, during which the search for \<open>C\<close> stays in flight. Then in the
  state reached: the set holds exactly the content ids with a search in flight, so \<open>C\<close>
  is a member; a further request for \<open>C\<close> is dropped, leaving the state as it is; the
  calls of \<^verbatim>\<open>FindProvidersAsync\<close> for \<open>C\<close> made since \<open>s0\<close> number one, or none as
  long as the search goroutine has not reached its call. There is a search goroutine for
  \<open>C\<close>, and for it: the counter of its wait group is the number of connection attempts
  for \<open>C\<close> started and not finished; lines 246-249 can run exactly when the providers
  loop has ended and every connection attempt started for \<open>C\<close> has finished; and if
  every connection attempt returns, the goroutine runs to its end, after which \<open>C\<close> is
  out of the set, no search for \<open>C\<close> is in flight, exactly one call of
  \<^verbatim>\<open>FindProvidersAsync\<close> has been made for \<open>C\<close> since \<open>s0\<close> and every connection
  attempt for \<open>C\<close> has finished. Whenever the search finishes, \<open>C\<close> leaves the set
  with exactly one call made for it, and a later request for \<open>C\<close> starts a new search.
\<close>

theorem pqm_dedup:
  assumes reach: "pqm_run pqm_init es0 = Some s0"
    and fresh: "\<not> in_flight C s0"
    and launch: "providerQueryManager_step s0 (Dequeue \<lparr>Cid = C, Ctx_done = False\<rparr>) = Some s1"
    and win: "in_flight_during C s1 es"
    and run: "pqm_run s1 es = Some s"
  shows "(\<forall>c. (c \<in> kset s) = in_flight c s) \<and>
         (\<not> returned s \<longrightarrow> (\<forall>d. providerQueryManager_step s (Dequeue \<lparr>Cid = C, Ctx_done = d\<rparr>) = Some s)) \<and>
         count_list (find_calls s) C =
           count_list (find_calls s0) C + (if uncalled C s then 0 else 1) \<and>
         (\<exists>i. i < length (tasks s) \<and> t_cid (tasks s ! i) = C) \<and>
         (\<forall>i. i < length (tasks s) \<and> t_cid (tasks s ! i) = C \<longrightarrow>
            connects_started C s = connects_finished C s + t_wg (tasks s ! i) \<and>
            ((\<exists>s'. providerQueryManager_step s (Finish i) = Some s') =
               (t_phase (tasks s ! i) = Waiting \<and>
                connects_started C s = connects_finished C s)) \<and>
            (\<exists>s'. pqm_run s (pqm_finish_events i (tasks s ! i)) = Some s' \<and>
                  C \<notin> kset s' \<and> \<not> in_flight C s' \<and>
                  count_list (find_calls s') C = count_list (find_calls s0) C + 1 \<and>
                  connects_started C s' = connects_finished C s')) \<and>
         (\<forall>i s'. providerQueryManager_step s (Finish i) = Some s' \<and> t_cid (tasks s ! i) = C \<longrightarrow>
            C \<notin> kset s' \<and> \<not> in_flight C s' \<and>
            count_list (find_calls s') C = count_list (find_calls s0) C + 1 \<and>
            (\<not> returned s' \<longrightarrow>
               (\<exists>s''. providerQueryManager_step s' (Dequeue \<lparr>Cid = C, Ctx_done = False\<rparr>) = Some s'' \<and>
                      in_flight C s'' \<and> uncalled C s'')))"
proof -
  note w = pqm_window [OF reach fresh launch win run]
  from w have inv: "pqm_inv s" and fl: "in_flight C s"
    and cnt: "count_list (find_calls s) C =
      count_list (find_calls s0) C + (if uncalled C s then 0 else 1)"
    and bal: "connects_started C s = connects_finished C s + connects_pending C s"
    by blast+
  from inv have mem: "\<forall>c. (c \<in> kset s) = in_flight c s"
    by (simp add: pqm_inv_def in_flight_def)
  from mem fl have drop: "\<not> returned s \<longrightarrow>
      (\<forall>d. providerQueryManager_step s (Dequeue \<lparr>Cid = C, Ctx_done = d\<rparr>) = Some s)"
    by simp
  from fl have ex: "\<exists>i. i < length (tasks s) \<and> t_cid (tasks s ! i) = C"
    by (rule in_flight_index)
  have task: "\<forall>i. i < length (tasks s) \<and> t_cid (tasks s ! i) = C \<longrightarrow>
            connects_started C s = connects_finished C s + t_wg (tasks s ! i) \<and>
            ((\<exists>s'. providerQueryManager_step s (Finish i) = Some s') =
               (t_phase (tasks s ! i) = Waiting \<and>
                connects_started C s = connects_finished C s)) \<and>
            (\<exists>s'. pqm_run s (pqm_finish_events i (tasks s ! i)) = Some s' \<and>
                  C \<notin> kset s' \<and> \<not> in_flight C s' \<and>
                  count_list (find_calls s') C = count_list (find_calls s0) C + 1 \<and>
                  connects_started C s' = connects_finished C s')"
  proof (intro allI impI, elim conjE)
    fix i assume i: "i < length (tasks s)" and ci: "t_cid (tasks s ! i) = C"
    from connects_pending_task [OF inv i] ci bal
    have a: "connects_started C s = connects_finished C s + t_wg (tasks s ! i)" by simp
    from i a have b: "(\<exists>s'. providerQueryManager_step s (Finish i) = Some s') =
        (t_phase (tasks s ! i) = Waiting \<and> connects_started C s = connects_finished C s)"
      by auto
    from pqm_reach_finish [OF i fl] ci obtain pre t1 where
      ev: "pqm_finish_events i (tasks s ! i) = pre @ [Finish i]"
      and r1: "pqm_run s pre = Some t1" and fd: "in_flight_during C s pre"
      and i1: "i < length (tasks t1)" and c1: "t_cid (tasks t1 ! i) = C"
      and p1: "t_phase (tasks t1 ! i) = Waiting" and w1: "t_wg (tasks t1 ! i) = 0"
      by auto
    have win': "in_flight_during C s1 (es @ pre)"
      using win run fd by (rule in_flight_during_append)
    have run': "pqm_run s1 (es @ pre) = Some t1" using run r1 by (rule pqm_run_trans)
    note w' = pqm_window [OF reach fresh launch win' run']
    from w' have inv1: "pqm_inv t1"
      and cnt1: "count_list (find_calls t1) C =
        count_list (find_calls s0) C + (if uncalled C t1 then 0 else 1)"
      and bal1: "connects_started C t1 = connects_finished C t1 + connects_pending C t1"
      by blast+
    define t2 where "t2 = t1\<lparr>kset := kset t1 - {t_cid (tasks t1 ! i)},
        tasks := remove_nth i (tasks t1)\<rparr>"
    from i1 p1 w1 have st: "providerQueryManager_step t1 (Finish i) = Some t2"
      by (simp add: t2_def)
    have inv2: "pqm_inv t2" using inv1 st by (rule pqm_inv_step)
    from c1 have k2: "C \<notin> kset t2" by (simp add: t2_def)
    with inv2 have f2: "\<not> in_flight C t2" by (simp add: pqm_inv_def in_flight_def)
    from finish_cid_not_uncalled [OF inv1 st] c1 have "\<not> uncalled C t1" by simp
    with cnt1 have n2: "count_list (find_calls t2) C = count_list (find_calls s0) C + 1"
      by (simp add: t2_def)
    from connects_step [OF st bal1] connects_pending_absent [OF f2]
    have b2: "connects_started C t2 = connects_finished C t2" by simp
    have "pqm_run t1 [Finish i] = Some t2" using st by simp
    with r1 have "pqm_run s (pre @ [Finish i]) = Some t2" by (rule pqm_run_trans)
    with ev have "pqm_run s (pqm_finish_events i (tasks s ! i)) = Some t2" by simp
    with k2 f2 n2 b2 have c: "\<exists>s'. pqm_run s (pqm_finish_events i (tasks s ! i)) = Some s' \<and>
                  C \<notin> kset s' \<and> \<not> in_flight C s' \<and>
                  count_list (find_calls s') C = count_list (find_calls s0) C + 1 \<and>
                  connects_started C s' = connects_finished C s'"
      by blast
    from a b c show "connects_started C s = connects_finished C s + t_wg (tasks s ! i) \<and>
            ((\<exists>s'. providerQueryManager_step s (Finish i) = Some s') =
               (t_phase (tasks s ! i) = Waiting \<and>
                connects_started C s = connects_finished C s)) \<and>
            (\<exists>s'. pqm_run s (pqm_finish_events i (tasks s ! i)) = Some s' \<and>
                  C \<notin> kset s' \<and> \<not> in_flight C s' \<and>
                  count_list (find_calls s') C = count_list (find_calls s0) C + 1 \<and>
                  connects_started C s' = connects_finished C s')"
      by blast
  qed
  have fin: "\<forall>i s'. providerQueryManager_step s (Finish i) = Some s' \<and> t_cid (tasks s ! i) = C \<longrightarrow>
            C \<notin> kset s' \<and> \<not> in_flight C s' \<and>
            count_list (find_calls s') C = count_list (find_calls s0) C + 1 \<and>
            (\<not> returned s' \<longrightarrow>
               (\<exists>s''. providerQueryManager_step s' (Dequeue \<lparr>Cid = C, Ctx_done = False\<rparr>) = Some s'' \<and>
                      in_flight C s'' \<and> uncalled C s''))"
  proof (intro allI impI, elim conjE)
    fix i s'
    assume st: "providerQueryManager_step s (Finish i) = Some s'" and ci: "t_cid (tasks s ! i) = C"
    have inv': "pqm_inv s'" using inv st by (rule pqm_inv_step)
    from st have s': "s' = s\<lparr>kset := kset s - {t_cid (tasks s ! i)},
        tasks := remove_nth i (tasks s)\<rparr>"
      by (auto split: if_splits)
    from s' ci have a: "C \<notin> kset s'" by simp
    with inv' have b: "\<not> in_flight C s'" by (simp add: pqm_inv_def in_flight_def)
    from finish_cid_not_uncalled [OF inv st] ci have "\<not> uncalled C s" by simp
    with cnt s' have c: "count_list (find_calls s') C = count_list (find_calls s0) C + 1"
      by simp
    have d: "\<not> returned s' \<longrightarrow>
               (\<exists>s''. providerQueryManager_step s' (Dequeue \<lparr>Cid = C, Ctx_done = False\<rparr>) = Some s'' \<and>
                      in_flight C s'' \<and> uncalled C s'')"
      using a by (simp add: in_flight_def cids_def uncalled_def)
    from a b c d show "C \<notin> kset s' \<and> \<not> in_flight C s' \<and>
            count_list (find_calls s') C = count_list (find_calls s0) C + 1 \<and>
            (\<not> returned s' \<longrightarrow>
               (\<exists>s''. providerQueryManager_step s' (Dequeue \<lparr>Cid = C, Ctx_done = False\<rparr>) = Some s'' \<and>
                      in_flight C s'' \<and> uncalled C s''))"
      by blast
  qed
  show ?thesis by (intro conjI) (rule mem drop cnt ex task fin)+
qed

theorem pqm_dedup_witness:
  "pqm_run pqm_init [] = Some pqm_init \<and> \<not> in_flight ''X'' pqm_init \<and>
   providerQueryManager_step pqm_init (Dequeue \<lparr>Cid = ''X'', Ctx_done = False\<rparr>) = Some pqm_demo_launched \<and>
   in_flight_during ''X'' pqm_demo_launched pqm_demo \<and>
   pqm_run pqm_demo_launched pqm_demo = Some pqm_demo_end \<and>
   in_flight_during ''X'' pqm_demo_launched pqm_demo_search \<and>
   pqm_run pqm_demo_launched pqm_demo_search = Some pqm_demo_connecting \<and>
   \<not> returned pqm_demo_end \<and> \<not> uncalled ''X'' pqm_demo_end \<and>
   providerQueryManager_step pqm_demo_end (Dequeue \<lparr>Cid = ''X'', Ctx_done = False\<rparr>) = Some pqm_demo_end \<and>
   count_list (find_calls pqm_demo_end) ''X'' = 1 \<and>
   connects_started ''X'' pqm_demo_connecting = 1 \<and>
   connects_finished ''X'' pqm_demo_connecting = 0 \<and>
   t_wg (tasks pqm_demo_connecting ! 0) = 1 \<and>
   providerQueryManager_step pqm_demo_connecting (Finish 0) = None \<and>
   pqm_finish_events 0 (tasks pqm_demo_connecting ! 0) = [ConnectDone 0 False, Finish 0] \<and>
   pqm_run pqm_demo_connecting [ConnectDone 0 False, Finish 0] = Some pqm_demo_finished \<and>
   connects_started ''X'' pqm_demo_end = connects_finished ''X'' pqm_demo_end \<and>
   providerQueryManager_step pqm_demo_end (Finish 0) = Some pqm_demo_finished \<and>
   ''X'' \<notin> kset pqm_demo_finished \<and> \<not> in_flight ''X'' pqm_demo_finished \<and>
   count_list (find_calls pqm_demo_finished) ''X'' = 1 \<and>
   providerQueryManager_step pqm_demo_finished (Dequeue \<lparr>Cid = ''X'', Ctx_done = False\<rparr>)
     = Some (pqm_demo_finished\<lparr>kset := {''X''},
          tasks := [\<lparr>t_cid = ''X'', t_phase = Launched, t_wg = 0\<rparr>]\<rparr>)"
proof -
  have h1: "pqm_run pqm_init [] = Some pqm_init" by simp
  have h2: "\<not> in_flight ''X'' pqm_init" by (simp add: in_flight_def cids_def pqm_init_def)
  have h3: "providerQueryManager_step pqm_init (Dequeue \<lparr>Cid = ''X'', Ctx_done = False\<rparr>) = Some pqm_demo_launched"
    by (simp add: pqm_init_def pqm_demo_launched_def)
  have h4: "in_flight_during ''X'' pqm_demo_launched pqm_demo"
    by (simp add: pqm_demo_def pqm_demo_search_def pqm_demo_launched_def in_flight_def cids_def)
  have h5: "pqm_run pqm_demo_launched pqm_demo = Some pqm_demo_end"
    by (simp add: pqm_demo_def pqm_demo_search_def pqm_demo_launched_def pqm_demo_end_def)
  have g4: "in_flight_during ''X'' pqm_demo_launched pqm_demo_search"
    by (simp add: pqm_demo_search_def pqm_demo_launched_def in_flight_def cids_def)
  have g5: "pqm_run pqm_demo_launched pqm_demo_search = Some pqm_demo_connecting"
    by (simp add: pqm_demo_search_def pqm_demo_launched_def pqm_demo_connecting_def)
  have h6: "\<not> returned pqm_demo_end" and h7: "\<not> uncalled ''X'' pqm_demo_end"
    by (simp_all add: pqm_demo_end_def uncalled_def)
  have f0: "find_calls pqm_init = []" by (simp add: pqm_init_def)
  note E = pqm_dedup [OF h1 h2 h3 h4 h5]
  note K = pqm_dedup [OF h1 h2 h3 g4 g5]
  from E h6 have e1: "providerQueryManager_step pqm_demo_end (Dequeue \<lparr>Cid = ''X'', Ctx_done = False\<rparr>)
      = Some pqm_demo_end"
    by blast
  from E have "count_list (find_calls pqm_demo_end) ''X'' =
      count_list (find_calls pqm_init) ''X'' + (if uncalled ''X'' pqm_demo_end then 0 else 1)"
    by blast
  with h7 f0 have e2: "count_list (find_calls pqm_demo_end) ''X'' = 1" by simp
  have ie: "0 < length (tasks pqm_demo_end) \<and> t_cid (tasks pqm_demo_end ! 0) = ''X''"
    and pe: "t_phase (tasks pqm_demo_end ! 0) = Waiting" and we: "t_wg (tasks pqm_demo_end ! 0) = 0"
    by (simp_all add: pqm_demo_end_def)
  note Et = E [THEN conjunct2, THEN conjunct2, THEN conjunct2, THEN conjunct2, THEN conjunct1,
      rule_format, OF ie]
  from Et we have e3: "connects_started ''X'' pqm_demo_end = connects_finished ''X'' pqm_demo_end"
    by simp
  from Et pe e3 have "\<exists>s'. providerQueryManager_step pqm_demo_end (Finish 0) = Some s'"
    by blast
  then have e4: "providerQueryManager_step pqm_demo_end (Finish 0) = Some pqm_demo_finished"
    by (simp add: pqm_demo_end_def pqm_demo_finished_def remove_nth_def)
  note Ef = E [THEN conjunct2, THEN conjunct2, THEN conjunct2, THEN conjunct2, THEN conjunct2,
      rule_format, of 0 pqm_demo_finished]
  from Ef e4 ie have e5: "''X'' \<notin> kset pqm_demo_finished" and e6: "\<not> in_flight ''X'' pqm_demo_finished"
    and "count_list (find_calls pqm_demo_finished) ''X'' = count_list (find_calls pqm_init) ''X'' + 1"
    by blast+
  with f0 have e7: "count_list (find_calls pqm_demo_finished) ''X'' = 1" by simp
  have e8: "providerQueryManager_step pqm_demo_finished (Dequeue \<lparr>Cid = ''X'', Ctx_done = False\<rparr>)
     = Some (pqm_demo_finished\<lparr>kset := {''X''},
          tasks := [\<lparr>t_cid = ''X'', t_phase = Launched, t_wg = 0\<rparr>]\<rparr>)"
    by (simp add: pqm_demo_finished_def)
  have ik: "0 < length (tasks pqm_demo_connecting) \<and> t_cid (tasks pqm_demo_connecting ! 0) = ''X''"
    and k1: "connects_started ''X'' pqm_demo_connecting = 1"
    and k2: "connects_finished ''X'' pqm_demo_connecting = 0"
    and k3: "t_wg (tasks pqm_demo_connecting ! 0) = 1"
    by (simp_all add: pqm_demo_connecting_def connects_started_def connects_finished_def)
  note Kt = K [THEN conjunct2, THEN conjunct2, THEN conjunct2, THEN conjunct2, THEN conjunct1,
      rule_format, OF ik]
  from Kt k1 k2 have "\<not> (\<exists>s'. providerQueryManager_step pqm_demo_connecting (Finish 0) = Some s')"
    by simp
  then have k4: "providerQueryManager_step pqm_demo_connecting (Finish 0) = None"
    by (cases "providerQueryManager_step pqm_demo_connecting (Finish 0)") auto
  have k5: "pqm_finish_events 0 (tasks pqm_demo_connecting ! 0) = [ConnectDone 0 False, Finish 0]"
    by (simp add: pqm_finish_events_def pqm_demo_connecting_def)
  from Kt have "\<exists>s'. pqm_run pqm_demo_connecting
      (pqm_finish_events 0 (tasks pqm_demo_connecting ! 0)) = Some s'"
    by blast
  then have k6: "pqm_run pqm_demo_connecting [ConnectDone 0 False, Finish 0] = Some pqm_demo_finished"
    unfolding k5
    by (simp add: pqm_demo_connecting_def pqm_demo_finished_def remove_nth_def)
  from h1 h2 h3 h4 h5 g4 g5 h6 h7 e1 e2 k1 k2 k3 k4 k5 k6 e3 e4 e5 e6 e7 e8
  show ?thesis by blast
qed

subsection \<open>provideCollector\<close>

lemma pc_wf_init: "pc_wf pc_init"
  by (simp add: pc_wf_def pc_init_def)

lemma pc_step_flow:
  assumes "provideCollector_step s e = Some s'" and "e \<noteq> NewBlocksClosed" and "e \<noteq> CollectorCtxDone"
    and "pc_wf s"
  shows "provideKeys s' @ pc_pending s' = provideKeys s @ pc_pending s @ pc_inputs [e]
         \<and> pc_wf s'"
  using assms
  by (cases e) (auto simp: provideCollector_step_def pc_pending_def pc_wf_def split: if_splits list.splits)

lemma pc_inputs_Cons: "pc_inputs (e # es) = pc_inputs [e] @ pc_inputs es"
  by (cases e) simp_all

lemma pc_run_flow:
  "pc_run s es = Some s' \<Longrightarrow> pc_running es \<Longrightarrow> pc_wf s \<Longrightarrow>
   provideKeys s' @ pc_pending s' = provideKeys s @ pc_pending s @ pc_inputs es \<and> pc_wf s'"
proof (induction es arbitrary: s)
  case Nil
  then show ?case by simp
next
  case (Cons e es)
  from Cons.prems(1) obtain s1 where st: "provideCollector_step s e = Some s1" and run: "pc_run s1 es = Some s'"
    by (auto split: option.splits)
  from Cons.prems(2) have e: "e \<noteq> NewBlocksClosed" "e \<noteq> CollectorCtxDone" and r: "pc_running es"
    by (auto simp: pc_running_def)
  from pc_step_flow [OF st e Cons.prems(3)] have f1: "provideKeys s1 @ pc_pending s1
      = provideKeys s @ pc_pending s @ pc_inputs [e]" and o: "pc_wf s1"
    by simp_all
  from Cons.IH [OF run r o] f1 show ?case
    by (simp add: pc_inputs_Cons [of e es])
qed

lemma pc_KeyOut_armed:
  assumes "pc_wf s" and "keysOut s"
  shows "\<exists>s1. provideCollector_step s KeyOut = Some s1 \<and> provideKeys s1 = provideKeys s @ [nextKey s]
          \<and> pc_pending s1 = toProvide s \<and> pc_wf s1"
proof (cases "toProvide s")
  case Nil
  with assms show ?thesis by (simp add: provideCollector_step_def pc_wf_def pc_pending_def)
next
  case (Cons k ks)
  with assms show ?thesis by (simp add: provideCollector_step_def pc_wf_def pc_pending_def)
qed

lemma pc_drain:
  "pc_wf s \<Longrightarrow> length (pc_pending s) = n \<Longrightarrow>
   \<exists>s'. pc_run s (replicate n KeyOut) = Some s' \<and>
        provideKeys s' = provideKeys s @ pc_pending s \<and> pc_pending s' = [] \<and> pc_wf s'"
proof (induction n arbitrary: s)
  case 0
  then show ?case by simp
next
  case (Suc n)
  from Suc.prems(2) have k: "keysOut s" by (auto simp: pc_pending_def split: if_splits)
  from pc_KeyOut_armed [OF Suc.prems(1) k] obtain s1 where st: "provideCollector_step s KeyOut = Some s1"
    and out: "provideKeys s1 = provideKeys s @ [nextKey s]" and p: "pc_pending s1 = toProvide s"
    and o: "pc_wf s1" by blast
  from p Suc.prems(2) k have "length (pc_pending s1) = n" by (simp add: pc_pending_def)
  from Suc.IH [OF o this] obtain s' where "pc_run s1 (replicate n KeyOut) = Some s'"
    and "provideKeys s' = provideKeys s1 @ pc_pending s1" and "pc_pending s' = []"
    and "pc_wf s'" by blast
  with st out p k show ?case by (simp add: pc_pending_def)
qed

lemma pc_NewBlock_queued:
  assumes "pc_wf s"
  shows "\<exists>s1. provideCollector_step s (NewBlock k) = Some s1 \<and> provideKeys s1 = provideKeys s
          \<and> pc_pending s1 = pc_pending s @ [k] \<and> pc_wf s1"
  using assms by (auto simp: provideCollector_step_def pc_wf_def pc_pending_def)

lemma pc_KeyOut_idle:
  assumes "pc_wf s" and "pc_pending s = []"
  shows "provideCollector_step s KeyOut = None"
  using assms by (auto simp: provideCollector_step_def pc_wf_def pc_pending_def split: if_splits)

lemma pc_KeyOut_head:
  assumes "pc_wf s" and "pc_pending s \<noteq> []"
  shows "\<exists>s1. provideCollector_step s KeyOut = Some s1 \<and>
          provideKeys s1 = provideKeys s @ [hd (pc_pending s)] \<and>
          pc_pending s1 = tl (pc_pending s) \<and> pc_wf s1"
proof -
  from assms(2) have k: "keysOut s" by (auto simp: pc_pending_def split: if_splits)
  from pc_KeyOut_armed [OF assms(1) k] k show ?thesis by (simp add: pc_pending_def)
qed

lemma pc_run_feasible:
  "pc_wf s \<Longrightarrow> pc_running es \<Longrightarrow>
   (\<exists>s'. pc_run s es = Some s') = pc_feasible (length (pc_pending s)) es"
proof (induction es arbitrary: s)
  case Nil
  then show ?case by simp
next
  case (Cons e es)
  from Cons.prems(2) have ne: "e \<noteq> NewBlocksClosed" "e \<noteq> CollectorCtxDone"
    and r: "pc_running es"
    by (auto simp: pc_running_def)
  show ?case
  proof (cases e)
    case (NewBlock k)
    from pc_NewBlock_queued [OF Cons.prems(1), of k] obtain s1
      where st: "provideCollector_step s (NewBlock k) = Some s1"
        and p: "pc_pending s1 = pc_pending s @ [k]" and wf: "pc_wf s1" by blast
    from Cons.IH [OF wf r] p st NewBlock show ?thesis by simp
  next
    case KeyOut
    show ?thesis
    proof (cases "pc_pending s = []")
      case True
      with pc_KeyOut_idle [OF Cons.prems(1)] KeyOut show ?thesis by simp
    next
      case False
      from pc_KeyOut_head [OF Cons.prems(1) False] obtain s1
        where st: "provideCollector_step s KeyOut = Some s1"
          and p: "pc_pending s1 = tl (pc_pending s)" and wf: "pc_wf s1" by blast
      from Cons.IH [OF wf r] p st KeyOut False show ?thesis by simp
    qed
  next
    case NewBlocksClosed
    with ne show ?thesis by simp
  next
    case CollectorCtxDone
    with ne show ?thesis by simp
  qed
qed

lemma pc_step_count:
  "provideCollector_step s e = Some s' \<Longrightarrow>
   length (provideKeys s') = length (provideKeys s) + count_list [e] KeyOut"
  by (cases e) (auto simp: provideCollector_step_def split: if_splits list.splits)

lemma pc_run_count:
  "pc_run s es = Some s' \<Longrightarrow>
   length (provideKeys s') = length (provideKeys s) + count_list es KeyOut"
proof (induction es arbitrary: s)
  case Nil
  then show ?case by simp
next
  case (Cons e es)
  from Cons.prems obtain s1 where st: "provideCollector_step s e = Some s1" and run: "pc_run s1 es = Some s'"
    by (auto split: option.splits)
  from Cons.IH [OF run] pc_step_count [OF st] show ?case by simp
qed

text \<open>
  C3. Order and exactly-once delivery of the bridge. Take any sequence \<open>es\<close> of
  receptions from the input and deliveries on the output in which the collector keeps
  running, the keys received being pairwise distinct. The collector goes through
  \<open>es\<close> exactly when \<open>es\<close> is an interleaving of producer and consumer steps, that
  is, when no delivery comes while no key is held. After it, the keys delivered are the
  first ones received, as many as the consumer has taken, in the order of arrival and
  without repetition; the keys held (armed one first, then the queue) are the remaining
  ones, in order; the collector takes any further key from the producer and holds it
  last; it delivers nothing while it holds nothing and otherwise delivers the key held
  first; and the consumer can take all the keys held one after the other, after which the
  output has yielded exactly the keys received, in that order.
\<close>

theorem provideCollector_order:
  assumes running: "pc_running es" and dist: "distinct (pc_inputs es)"
  shows "((\<exists>s. pc_run pc_init es = Some s) = pc_feasible 0 es) \<and>
         (\<forall>s. pc_run pc_init es = Some s \<longrightarrow>
            provideKeys s = take (count_list es KeyOut) (pc_inputs es) \<and>
            pc_pending s = drop (count_list es KeyOut) (pc_inputs es) \<and>
            distinct (provideKeys s) \<and>
            (\<forall>k. \<exists>s1. provideCollector_step s (NewBlock k) = Some s1 \<and>
                       provideKeys s1 = provideKeys s \<and> pc_pending s1 = pc_pending s @ [k]) \<and>
            (pc_pending s = [] \<longrightarrow> provideCollector_step s KeyOut = None) \<and>
            (pc_pending s \<noteq> [] \<longrightarrow>
               (\<exists>s1. provideCollector_step s KeyOut = Some s1 \<and>
                     provideKeys s1 = provideKeys s @ [hd (pc_pending s)] \<and>
                     pc_pending s1 = tl (pc_pending s))) \<and>
            (\<exists>s'. pc_run s (replicate (length (pc_pending s)) KeyOut) = Some s' \<and>
                  provideKeys s' = pc_inputs es \<and> pc_pending s' = []))"
proof (intro conjI allI impI)
  from pc_run_feasible [OF pc_wf_init running]
  show "(\<exists>s. pc_run pc_init es = Some s) = pc_feasible 0 es"
    by (simp add: pc_pending_def pc_init_def)
next
  fix s assume run: "pc_run pc_init es = Some s"
  from pc_run_flow [OF run running pc_wf_init]
  have flow: "provideKeys s @ pc_pending s = pc_inputs es" and wf: "pc_wf s"
    by (simp_all add: pc_init_def pc_pending_def)
  from pc_run_count [OF run] have n: "length (provideKeys s) = count_list es KeyOut"
    by (simp add: pc_init_def)
  from flow n show "provideKeys s = take (count_list es KeyOut) (pc_inputs es)"
    by (metis append_eq_conv_conj)
  from flow n show "pc_pending s = drop (count_list es KeyOut) (pc_inputs es)"
    by (metis append_eq_conv_conj)
  from dist flow show "distinct (provideKeys s)"
    by (metis distinct_append)
  from pc_drain [OF wf refl] flow
  show "\<exists>s'. pc_run s (replicate (length (pc_pending s)) KeyOut) = Some s' \<and>
               provideKeys s' = pc_inputs es \<and> pc_pending s' = []"
    by auto
  show "provideCollector_step s KeyOut = None" if "pc_pending s = []"
    using wf that by (rule pc_KeyOut_idle)
  show "\<exists>s1. provideCollector_step s KeyOut = Some s1 \<and>
             provideKeys s1 = provideKeys s @ [hd (pc_pending s)] \<and>
             pc_pending s1 = tl (pc_pending s)" if "pc_pending s \<noteq> []"
    using pc_KeyOut_head [OF wf that] by blast
  show "\<exists>s1. provideCollector_step s (NewBlock k) = Some s1 \<and>
             provideKeys s1 = provideKeys s \<and> pc_pending s1 = pc_pending s @ [k]" for k
    using pc_NewBlock_queued [OF wf, of k] by blast
qed

theorem provideCollector_order_witness:
  "pc_running pc_demo \<and> distinct (pc_inputs pc_demo) \<and> pc_feasible 0 pc_demo \<and>
   pc_inputs pc_demo = [''A'', ''B'', ''C''] \<and>
   pc_run pc_init pc_demo = Some pc_demo_state \<and>
   provideKeys pc_demo_state = [''A''] \<and> pc_pending pc_demo_state = [''B'', ''C''] \<and>
   (\<exists>s1. provideCollector_step pc_demo_state (NewBlock ''D'') = Some s1 \<and>
         provideKeys s1 = [''A''] \<and> pc_pending s1 = [''B'', ''C'', ''D'']) \<and>
   (\<exists>s1. provideCollector_step pc_demo_state KeyOut = Some s1 \<and>
         provideKeys s1 = [''A'', ''B''] \<and> pc_pending s1 = [''C'']) \<and>
   (\<exists>s'. pc_run pc_demo_state [KeyOut, KeyOut] = Some s' \<and>
         provideKeys s' = [''A'', ''B'', ''C''] \<and> pc_pending s' = [])"
proof -
  have h1: "pc_run pc_init pc_demo = Some pc_demo_state"
    by (simp add: pc_demo_def pc_demo_state_def pc_init_def provideCollector_step_def)
  have h2: "pc_running pc_demo" by (simp add: pc_demo_def pc_running_def)
  have h3: "distinct (pc_inputs pc_demo)" by (simp add: pc_demo_def)
  have f: "pc_feasible 0 pc_demo" by (simp add: pc_demo_def)
  have i: "pc_inputs pc_demo = [''A'', ''B'', ''C'']" by (simp add: pc_demo_def)
  have k: "count_list pc_demo KeyOut = 1" by (simp add: pc_demo_def)
  have o: "provideKeys pc_demo_state = [''A'']"
    and p: "pc_pending pc_demo_state = [''B'', ''C'']"
    by (simp_all add: pc_demo_state_def pc_pending_def)
  have r: "replicate (length (pc_pending pc_demo_state)) KeyOut = [KeyOut, KeyOut]"
    by (simp add: p)
  note t = provideCollector_order [OF h2 h3, THEN conjunct2, rule_format, OF h1]
  from t have "\<forall>k. \<exists>s1. provideCollector_step pc_demo_state (NewBlock k) = Some s1 \<and>
      provideKeys s1 = provideKeys pc_demo_state \<and> pc_pending s1 = pc_pending pc_demo_state @ [k]"
    by blast
  then have a: "\<exists>s1. provideCollector_step pc_demo_state (NewBlock ''D'') = Some s1 \<and>
         provideKeys s1 = [''A''] \<and> pc_pending s1 = [''B'', ''C'', ''D'']"
    by (simp add: o p)
  from t have "pc_pending pc_demo_state \<noteq> [] \<longrightarrow>
      (\<exists>s1. provideCollector_step pc_demo_state KeyOut = Some s1 \<and>
            provideKeys s1 = provideKeys pc_demo_state @ [hd (pc_pending pc_demo_state)] \<and>
            pc_pending s1 = tl (pc_pending pc_demo_state))"
    by blast
  then have b: "\<exists>s1. provideCollector_step pc_demo_state KeyOut = Some s1 \<and>
         provideKeys s1 = [''A'', ''B''] \<and> pc_pending s1 = [''C'']"
    by (simp add: o p)
  from t have "\<exists>s'. pc_run pc_demo_state (replicate (length (pc_pending pc_demo_state)) KeyOut)
      = Some s' \<and> provideKeys s' = pc_inputs pc_demo \<and> pc_pending s' = []"
    by blast
  then have c: "\<exists>s'. pc_run pc_demo_state [KeyOut, KeyOut] = Some s' \<and>
         provideKeys s' = [''A'', ''B'', ''C''] \<and> pc_pending s' = []"
    unfolding r i .
  from h1 h2 h3 f i o p a b c show ?thesis by blast
qed

text \<open>
  C2, as stated, fails: in the run below the collector has received \<open>A\<close>, \<open>B\<close> and
  \<open>C\<close> and delivered \<open>A\<close> when it sees the input closed; it returns and the output is
  closed with \<open>B\<close> armed and \<open>C\<close> queued, neither delivered.
\<close>

theorem provideCollector_close_counterexample:
  "pc_run pc_init pc_demo_close =
     Some \<lparr>toProvide = [''C''], nextKey = ''B'', keysOut = True,
           provideKeys = [''A''], provideKeys_closed = True\<rparr> \<and>
   pc_inputs pc_demo_close = [''A'', ''B'', ''C'']"
  by (simp add: pc_demo_close_def pc_demo_def pc_init_def provideCollector_step_def)

text \<open>
  C2, amended. When the collector, still running, takes the case of the closed input, it
  returns at once: the output is closed without any further delivery and no step of the
  collector follows. The keys delivered until then are the first ones received, in the
  order of arrival; the armed key and the queued keys of that moment are the remaining
  ones, and they are not delivered.
\<close>

theorem provideCollector_input_closed:
  assumes run: "pc_run pc_init es = Some s" and running: "pc_running es"
  shows "\<exists>s'. provideCollector_step s NewBlocksClosed = Some s' \<and> provideKeys_closed s' \<and>
              provideKeys s' = provideKeys s \<and>
              provideKeys s' @ pc_pending s = pc_inputs es \<and>
              (\<forall>e. provideCollector_step s' e = None)"
proof -
  from pc_run_flow [OF run running pc_wf_init]
  have flow: "provideKeys s @ pc_pending s = pc_inputs es" and wf: "pc_wf s"
    by (simp_all add: pc_init_def pc_pending_def)
  from wf have "provideCollector_step s NewBlocksClosed = Some (s\<lparr>provideKeys_closed := True\<rparr>)"
    by (simp add: provideCollector_step_def pc_wf_def)
  with flow show ?thesis by (simp add: provideCollector_step_def)
qed

theorem provideCollector_input_closed_witness:
  "pc_run pc_init pc_demo = Some pc_demo_state \<and> pc_running pc_demo \<and>
   (\<exists>s'. provideCollector_step pc_demo_state NewBlocksClosed = Some s' \<and> provideKeys_closed s' \<and>
         provideKeys s' = [''A''] \<and> pc_pending pc_demo_state = [''B'', ''C''] \<and>
         provideCollector_step s' KeyOut = None)"
proof -
  have h1: "pc_run pc_init pc_demo = Some pc_demo_state"
    by (simp add: pc_demo_def pc_demo_state_def pc_init_def provideCollector_step_def)
  have h2: "pc_running pc_demo" by (simp add: pc_demo_def pc_running_def)
  have o: "provideKeys pc_demo_state = [''A'']" and p: "pc_pending pc_demo_state = [''B'', ''C'']"
    by (simp_all add: pc_demo_state_def pc_pending_def)
  from provideCollector_input_closed [OF h1 h2] h1 h2 show ?thesis
    unfolding o p by auto
qed

subsection \<open>provideWorker\<close>

lemma length_remove_nth: "i < length xs \<Longrightarrow> length (remove_nth i xs) = length xs - 1"
  by (simp add: remove_nth_def)

lemma pw_step_tokens:
  assumes "provideWorker_step W s e = Some s'" and "limit s = length (announces s)" and "limit s \<le> W"
  shows "limit s' = length (announces s') \<and> limit s' \<le> W"
  using assms
  by (cases e) (auto simp: length_remove_nth split: if_splits spawner_phase.splits announce_phase.splits)

lemma pw_run_tokens:
  "pw_run W s es = Some s' \<Longrightarrow> limit s = length (announces s) \<Longrightarrow> limit s \<le> W \<Longrightarrow>
   limit s' = length (announces s') \<and> limit s' \<le> W"
proof (induction es arbitrary: s)
  case Nil
  then show ?case by simp
next
  case (Cons e es)
  from Cons.prems(1) obtain s1 where st: "provideWorker_step W s e = Some s1"
    and run: "pw_run W s1 es = Some s'"
    by (auto split: option.splits)
  from pw_step_tokens [OF st Cons.prems(2,3)] Cons.IH [OF run] show ?case by simp
qed

text \<open>
  C4. Bounded announce parallelism. In every state that the provide worker and its
  announce goroutines reach, for every capacity \<open>W\<close> and every order of events, the
  goroutines running \<^verbatim>\<open>limitedGoProvide\<close> number at most \<open>W\<close> and exactly as many as
  there are tokens in \<^verbatim>\<open>limit\<close>; a goroutine is started only by a step that puts a
  token into \<^verbatim>\<open>limit\<close>, which needs room; and a goroutine whose \<^verbatim>\<open>Provide\<close> call has
  returned, with an error or not, can always take its token back and finish.
\<close>

theorem provideWorker_bounded:
  assumes run: "pw_run W pw_init es = Some s"
  shows "length (announces s) \<le> W \<and> limit s = length (announces s) \<and>
         (\<forall>s'. provideWorker_step W s Acquire = Some s' \<longrightarrow>
            limit s < W \<and> limit s' = Suc (limit s) \<and>
            length (announces s') = Suc (length (announces s))) \<and>
         (\<forall>e s'. provideWorker_step W s e = Some s' \<and> e \<noteq> Acquire \<longrightarrow>
            length (announces s') \<le> length (announces s)) \<and>
         (\<forall>i failed. i < length (announces s) \<and> a_phase (announces s ! i) = Provided failed \<longrightarrow>
            (\<exists>s'. provideWorker_step W s (Release i) = Some s' \<and> limit s' = limit s - 1 \<and>
                  length (announces s') = length (announces s) - 1))"
proof -
  from pw_run_tokens [OF run] have tok: "limit s = length (announces s)" and le: "limit s \<le> W"
    by (simp_all add: pw_init_def)
  have acq: "\<forall>s'. provideWorker_step W s Acquire = Some s' \<longrightarrow>
            limit s < W \<and> limit s' = Suc (limit s) \<and>
            length (announces s') = Suc (length (announces s))"
    by (auto split: spawner_phase.splits if_splits)
  have oth: "\<forall>e s'. provideWorker_step W s e = Some s' \<and> e \<noteq> Acquire \<longrightarrow>
            length (announces s') \<le> length (announces s)"
  proof (intro allI impI, elim conjE)
    fix e s' assume "provideWorker_step W s e = Some s'" and "e \<noteq> Acquire"
    then show "length (announces s') \<le> length (announces s)"
      by (cases e) (auto simp: length_remove_nth split: if_splits announce_phase.splits)
  qed
  have rel: "\<forall>i failed. i < length (announces s) \<and> a_phase (announces s ! i) = Provided failed \<longrightarrow>
            (\<exists>s'. provideWorker_step W s (Release i) = Some s' \<and> limit s' = limit s - 1 \<and>
                  length (announces s') = length (announces s) - 1)"
    using tok by (auto simp: length_remove_nth)
  from tok le have bound: "length (announces s) \<le> W" by simp
  show ?thesis by (intro conjI) (rule bound tok acq oth rel)+
qed

theorem provideWorker_bounded_witness:
  "pw_run 1 pw_init pw_demo = Some pw_demo_state \<and>
   length (announces pw_demo_state) = 1 \<and> limit pw_demo_state = 1 \<and>
   provideWorker_step 1 pw_demo_state Acquire = None \<and>
   a_phase (announces pw_demo_state ! 0) = Provided True \<and>
   (\<exists>s'. provideWorker_step 1 pw_demo_state (Release 0) = Some s' \<and> limit s' = 0 \<and> announces s' = [])"
proof -
  have h: "pw_run 1 pw_init pw_demo = Some pw_demo_state"
    by (simp add: pw_demo_def pw_demo_state_def pw_init_def)
  have a: "provideWorker_step 1 pw_demo_state Acquire = None"
    and r: "\<exists>s'. provideWorker_step 1 pw_demo_state (Release 0) = Some s' \<and> limit s' = 0 \<and> announces s' = []"
    by (simp_all add: pw_demo_state_def remove_nth_def)
  have l: "length (announces pw_demo_state) = 1" and t: "limit pw_demo_state = 1"
    and p: "a_phase (announces pw_demo_state ! 0) = Provided True"
    by (simp_all add: pw_demo_state_def)
  from provideWorker_bounded [OF h] have "length (announces pw_demo_state) \<le> 1" by simp
  with h a r l t p show ?thesis by blast
qed

subsection \<open>taskWorker\<close>

lemma foldl_AddBlock: "foldl AddBlock m bs = m @ bs"
  by (induction bs arbitrary: m) (simp_all add: AddBlock_def)

lemma foldl_count_block:
  "foldl count_block c bs =
     c\<lparr>blocksSent := blocksSent c + of_nat (length bs),
       dataSent := dataSent c + of_nat (sum_list (map (\<lambda>b. length (RawData b)) bs))\<rparr>"
  by (induction bs arbitrary: c) (simp_all add: count_block_def algebra_simps)

lemma unat_add_of_nat_64:
  "unat (w :: 64 word) + n < 2 ^ 64 \<Longrightarrow> unat (w + of_nat n) = unat w + n"
  by (simp add: unat_word_ariths unat_of_nat)

lemma send_envelope_effects:
  "tw_effects (send_envelope failed e s) =
     tw_effects s @ [MessageSent (Peer e) (Message_Blocks e), SendBlocks e failed, CounterLock]
       @ map (\<lambda>b. CountBlock (length (RawData b))) (Message_Blocks e) @ [CounterUnlock]"
  by (simp add: send_envelope_def foldl_AddBlock bsmsg_New_def)

lemma send_envelope_counters:
  "tw_counters (send_envelope failed e s) =
     (tw_counters s)\<lparr>blocksSent := blocksSent (tw_counters s) + of_nat (length (Message_Blocks e)),
        dataSent := dataSent (tw_counters s)
          + of_nat (sum_list (map (\<lambda>b. length (RawData b)) (Message_Blocks e)))\<rparr>"
  by (simp add: send_envelope_def foldl_count_block)

lemma taskWorker_step_Offers:
  assumes "tw_phase s = AtEnvelope" and "next_envelope env = Offers e"
    and "tw_chosen env s = Chosen RecvCase"
  shows "taskWorker_step env s = (send_envelope (send_fails env) e s)\<lparr>tw_phase := AtOutbox\<rparr>"
  using assms by (simp add: taskWorker_step_def)

lemma tw_chosen_send_fails: "tw_chosen (env\<lparr>send_fails := f\<rparr>) s = tw_chosen env s"
  by (simp add: tw_chosen_def tw_ready_def split: tw_phase.splits)

text \<open>
  C5. Steps for one envelope. When a worker waiting on \<^verbatim>\<open>nextEnvelope\<close> receives an
  envelope \<open>e\<close>, that pass of its loop makes exactly these calls, in this order: one
  \<^verbatim>\<open>MessageSent\<close> for the peer of \<open>e\<close> with a message holding exactly the blocks of
  \<open>e\<close>; \<^verbatim>\<open>SendBlocks\<close> with \<open>e\<close>; the lock of the counter mutex, one count per block,
  the unlock. After it \<^verbatim>\<open>blocksSent\<close> has grown by the number of blocks of \<open>e\<close> and
  \<^verbatim>\<open>dataSent\<close> by the total length of their raw data, both modulo \<open>2 ^ 64\<close>, hence
  exactly when the sums stay below \<open>2 ^ 64\<close>; the worker is back at the outer wait.
\<close>

theorem taskWorker_envelope_steps:
  assumes "tw_phase s = AtEnvelope" and "next_envelope env = Offers e"
    and "tw_chosen env s = Chosen RecvCase"
  shows "(let s' = taskWorker_step env s;
              n = length (Message_Blocks e);
              bytes = sum_list (map (\<lambda>b. length (RawData b)) (Message_Blocks e))
          in tw_effects s' =
               tw_effects s
               @ [MessageSent (Peer e) (Message_Blocks e), SendBlocks e (send_fails env),
                  CounterLock]
               @ map (\<lambda>b. CountBlock (length (RawData b))) (Message_Blocks e)
               @ [CounterUnlock] \<and>
             blocksSent (tw_counters s') = blocksSent (tw_counters s) + of_nat n \<and>
             dataSent (tw_counters s') = dataSent (tw_counters s) + of_nat bytes \<and>
             (unat (blocksSent (tw_counters s)) + n < 2 ^ 64 \<longrightarrow>
                unat (blocksSent (tw_counters s')) = unat (blocksSent (tw_counters s)) + n) \<and>
             (unat (dataSent (tw_counters s)) + bytes < 2 ^ 64 \<longrightarrow>
                unat (dataSent (tw_counters s')) = unat (dataSent (tw_counters s)) + bytes) \<and>
             tw_phase s' = AtOutbox)"
  unfolding Let_def taskWorker_step_Offers [OF assms]
  by (simp add: send_envelope_effects send_envelope_counters unat_add_of_nat_64)

theorem taskWorker_envelope_steps_witness:
  "tw_phase tw_demo_state = AtEnvelope \<and> next_envelope tw_demo_env = Offers tw_demo_envelope \<and>
   tw_chosen tw_demo_env tw_demo_state = Chosen RecvCase \<and>
   tw_effects (taskWorker_step tw_demo_env tw_demo_state) =
     [MessageSent ''Q'' (Message_Blocks tw_demo_envelope), SendBlocks tw_demo_envelope True,
      CounterLock, CountBlock 3, CountBlock 2, CounterUnlock] \<and>
   blocksSent (tw_counters (taskWorker_step tw_demo_env tw_demo_state)) = 12 \<and>
   dataSent (tw_counters (taskWorker_step tw_demo_env tw_demo_state)) = 105"
proof -
  have h1: "tw_phase tw_demo_state = AtEnvelope" by (simp add: tw_demo_state_def)
  have h2: "next_envelope tw_demo_env = Offers tw_demo_envelope" by (simp add: tw_demo_env_def)
  have h3: "tw_chosen tw_demo_env tw_demo_state = Chosen RecvCase"
    by (simp add: tw_chosen_def tw_ready_def tw_demo_env_def tw_demo_state_def go_select_def
        when_ready_def)
  have e: "tw_effects tw_demo_state = []" "send_fails tw_demo_env"
    "tw_counters tw_demo_state = \<lparr>blocksSent = 10, dataSent = 100\<rparr>"
    by (simp_all add: tw_demo_state_def tw_demo_env_def)
  have b: "Peer tw_demo_envelope = ''Q''"
    "map (\<lambda>b. length (RawData b)) (Message_Blocks tw_demo_envelope) = [3, 2]"
    "map (\<lambda>b. CountBlock (length (RawData b))) (Message_Blocks tw_demo_envelope)
       = [CountBlock 3, CountBlock 2]"
    "length (Message_Blocks tw_demo_envelope) = 2"
    by (simp_all add: tw_demo_envelope_def)
  from taskWorker_envelope_steps [OF h1 h2 h3] h1 h2 h3 show ?thesis
    by (simp add: Let_def e b)
qed

text \<open>
  C10. The counters advance whatever the outcome of the transmission. When a worker
  receives an envelope \<open>e\<close> and the transmission of line 77 fails, the pass still counts
  every block of \<open>e\<close>: \<^verbatim>\<open>blocksSent\<close> grows by the number of blocks and \<^verbatim>\<open>dataSent\<close>
  by their total length, and the counters, like the calls made, are the same as when the
  transmission succeeds, the recorded outcome apart.
\<close>

theorem taskWorker_counts_failed_send:
  assumes "tw_phase s = AtEnvelope" and "next_envelope env = Offers e"
    and "tw_chosen env s = Chosen RecvCase" and "send_fails env"
  shows "SendBlocks e True \<in> set (tw_effects (taskWorker_step env s)) \<and>
         blocksSent (tw_counters (taskWorker_step env s)) =
           blocksSent (tw_counters s) + of_nat (length (Message_Blocks e)) \<and>
         dataSent (tw_counters (taskWorker_step env s)) =
           dataSent (tw_counters s)
             + of_nat (sum_list (map (\<lambda>b. length (RawData b)) (Message_Blocks e))) \<and>
         tw_counters (taskWorker_step env s) =
           tw_counters (taskWorker_step (env\<lparr>send_fails := False\<rparr>) s) \<and>
         SendBlocks e False \<in> set (tw_effects (taskWorker_step (env\<lparr>send_fails := False\<rparr>) s))"
proof -
  have c: "tw_chosen (env\<lparr>send_fails := False\<rparr>) s = Chosen RecvCase"
    using assms(3) by (simp add: tw_chosen_send_fails)
  have n: "next_envelope (env\<lparr>send_fails := False\<rparr>) = Offers e"
    using assms(2) by simp
  show ?thesis
    unfolding taskWorker_step_Offers [OF assms(1,2,3)] taskWorker_step_Offers [OF assms(1) n c]
    using assms(4)
    by (simp add: send_envelope_effects send_envelope_counters)
qed

theorem taskWorker_counts_failed_send_witness:
  "tw_phase tw_demo_state = AtEnvelope \<and> next_envelope tw_demo_env = Offers tw_demo_envelope \<and>
   tw_chosen tw_demo_env tw_demo_state = Chosen RecvCase \<and> send_fails tw_demo_env \<and>
   SendBlocks tw_demo_envelope True \<in> set (tw_effects (taskWorker_step tw_demo_env tw_demo_state)) \<and>
   blocksSent (tw_counters (taskWorker_step tw_demo_env tw_demo_state)) = 12 \<and>
   dataSent (tw_counters (taskWorker_step tw_demo_env tw_demo_state)) = 105"
proof -
  have h1: "tw_phase tw_demo_state = AtEnvelope" by (simp add: tw_demo_state_def)
  have h2: "next_envelope tw_demo_env = Offers tw_demo_envelope" by (simp add: tw_demo_env_def)
  have h3: "tw_chosen tw_demo_env tw_demo_state = Chosen RecvCase"
    by (simp add: tw_chosen_def tw_ready_def tw_demo_env_def tw_demo_state_def go_select_def
        when_ready_def)
  have h4: "send_fails tw_demo_env" by (simp add: tw_demo_env_def)
  have e: "tw_counters tw_demo_state = \<lparr>blocksSent = 10, dataSent = 100\<rparr>"
    by (simp add: tw_demo_state_def)
  have b: "map (\<lambda>b. length (RawData b)) (Message_Blocks tw_demo_envelope) = [3, 2]"
    "length (Message_Blocks tw_demo_envelope) = 2"
    by (simp_all add: tw_demo_envelope_def)
  note t = taskWorker_counts_failed_send [OF h1 h2 h3 h4]
  from t have a: "SendBlocks tw_demo_envelope True
      \<in> set (tw_effects (taskWorker_step tw_demo_env tw_demo_state))"
    by (rule conjunct1)
  from t have "blocksSent (tw_counters (taskWorker_step tw_demo_env tw_demo_state)) =
      blocksSent (tw_counters tw_demo_state) + of_nat (length (Message_Blocks tw_demo_envelope))"
    by (rule conjunct2 [THEN conjunct1])
  then have c: "blocksSent (tw_counters (taskWorker_step tw_demo_env tw_demo_state)) = 12"
    by (simp add: e b)
  from t have "dataSent (tw_counters (taskWorker_step tw_demo_env tw_demo_state)) =
      dataSent (tw_counters tw_demo_state)
        + of_nat (sum_list (map (\<lambda>b. length (RawData b)) (Message_Blocks tw_demo_envelope)))"
    by (rule conjunct2 [THEN conjunct2, THEN conjunct1])
  then have d: "dataSent (tw_counters (taskWorker_step tw_demo_env tw_demo_state)) = 105"
    by (simp add: e b)
  from h1 h2 h3 h4 a c d show ?thesis by blast
qed

text \<open>
  C8. Cancellation of a task worker. A worker waiting at the outer \<^verbatim>\<open>select\<close> with
  nothing to receive from the outbox, or at the inner one with nothing to receive from
  \<^verbatim>\<open>nextEnvelope\<close>, returns in the pass in which it finds its context done. A worker
  that receives from a closed \<^verbatim>\<open>nextEnvelope\<close> does not return: it goes back to the
  outer \<^verbatim>\<open>select\<close> with its counters and calls unchanged; and with a closed
  \<^verbatim>\<open>nextEnvelope\<close> and a live context that is the case it runs. A worker that has not
  returned returns in no pass in which its context is live, and a returned worker does
  nothing more.
\<close>

theorem taskWorker_cancel:
  "(tw_phase s = AtOutbox \<and> \<not> outbox_ready env \<and> ctx_done env \<longrightarrow>
      taskWorker_step env s = s\<lparr>tw_phase := TaskWorkerReturned\<rparr>) \<and>
   (tw_phase s = AtEnvelope \<and> next_envelope env = NotYet \<and> ctx_done env \<longrightarrow>
      taskWorker_step env s = s\<lparr>tw_phase := TaskWorkerReturned\<rparr>) \<and>
   (tw_phase s = AtEnvelope \<and> next_envelope env = Withdrawn \<and>
    tw_chosen env s = Chosen RecvCase \<longrightarrow>
      taskWorker_step env s = s\<lparr>tw_phase := AtOutbox\<rparr>) \<and>
   (tw_phase s = AtEnvelope \<and> next_envelope env = Withdrawn \<and> \<not> ctx_done env \<longrightarrow>
      taskWorker_step env s = s\<lparr>tw_phase := AtOutbox\<rparr>) \<and>
   (tw_phase s \<noteq> TaskWorkerReturned \<and> \<not> ctx_done env \<longrightarrow>
      tw_phase (taskWorker_step env s) \<noteq> TaskWorkerReturned) \<and>
   (tw_phase s = TaskWorkerReturned \<longrightarrow> taskWorker_step env s = s)"
proof (intro conjI impI; (elim conjE)?)
  assume "tw_phase s = AtOutbox" "\<not> outbox_ready env" "ctx_done env"
  then show "taskWorker_step env s = s\<lparr>tw_phase := TaskWorkerReturned\<rparr>"
    by (simp add: taskWorker_step_def tw_chosen_def tw_ready_def go_select_def when_ready_def)
next
  assume "tw_phase s = AtEnvelope" "next_envelope env = NotYet" "ctx_done env"
  then show "taskWorker_step env s = s\<lparr>tw_phase := TaskWorkerReturned\<rparr>"
    by (simp add: taskWorker_step_def tw_chosen_def tw_ready_def go_select_def when_ready_def)
next
  assume "tw_phase s = AtEnvelope" "next_envelope env = Withdrawn"
    "tw_chosen env s = Chosen RecvCase"
  then show "taskWorker_step env s = s\<lparr>tw_phase := AtOutbox\<rparr>"
    by (simp add: taskWorker_step_def)
next
  assume "tw_phase s = AtEnvelope" "next_envelope env = Withdrawn" "\<not> ctx_done env"
  then show "taskWorker_step env s = s\<lparr>tw_phase := AtOutbox\<rparr>"
    by (simp add: taskWorker_step_def tw_chosen_def tw_ready_def go_select_def when_ready_def)
next
  assume "tw_phase s \<noteq> TaskWorkerReturned" "\<not> ctx_done env"
  then show "tw_phase (taskWorker_step env s) \<noteq> TaskWorkerReturned"
    by (cases "tw_phase s"; cases "next_envelope env")
       (simp_all add: taskWorker_step_def tw_chosen_def tw_ready_def go_select_def when_ready_def)
next
  assume "tw_phase s = TaskWorkerReturned"
  then show "taskWorker_step env s = s"
    by (simp add: taskWorker_step_def)
qed

theorem taskWorker_cancel_witness:
  "taskWorker_step tw_demo_cancelled (tw_demo_state\<lparr>tw_phase := AtOutbox\<rparr>)
     = tw_demo_state\<lparr>tw_phase := TaskWorkerReturned\<rparr> \<and>
   taskWorker_step tw_demo_cancelled tw_demo_state = tw_demo_state\<lparr>tw_phase := TaskWorkerReturned\<rparr> \<and>
   taskWorker_step tw_demo_withdrawn tw_demo_state = tw_demo_state\<lparr>tw_phase := AtOutbox\<rparr> \<and>
   tw_phase (taskWorker_step tw_demo_env tw_demo_state) \<noteq> TaskWorkerReturned \<and>
   taskWorker_step tw_demo_cancelled (tw_demo_state\<lparr>tw_phase := TaskWorkerReturned\<rparr>)
     = tw_demo_state\<lparr>tw_phase := TaskWorkerReturned\<rparr>"
  using taskWorker_cancel [of "tw_demo_state\<lparr>tw_phase := AtOutbox\<rparr>" tw_demo_cancelled]
    taskWorker_cancel [of tw_demo_state tw_demo_cancelled]
    taskWorker_cancel [of tw_demo_state tw_demo_withdrawn]
    taskWorker_cancel [of tw_demo_state tw_demo_env]
    taskWorker_cancel [of "tw_demo_state\<lparr>tw_phase := TaskWorkerReturned\<rparr>" tw_demo_cancelled]
  by (simp add: tw_demo_state_def tw_demo_cancelled_def tw_demo_withdrawn_def tw_demo_env_def)

subsection \<open>rebroadcastWorker\<close>

lemma rebroadcastWorker_returns_at_timers:
  assumes "rb_phase s = AtTimers" and "parent_done env"
    and "\<not> tick_ready env" and "\<not> broadcast_ready env"
  shows "rebroadcastWorker_step env s = s\<lparr>rb_phase := RebroadcastReturned, timers_stopped := True\<rparr>"
  using assms
  by (simp add: rebroadcastWorker_step_def rb_chosen_def go_select_def when_ready_def)

lemma rebroadcastWorker_blocked_in_send:
  assumes "rb_phase s = AtFindKeys c" and "\<not> findKeys_ready env"
  shows "rebroadcastWorker_step env s = s"
  using assms by (simp add: rebroadcastWorker_step_def)

lemma rb_run_blocked_in_send:
  assumes "rb_phase s = AtFindKeys c" and "\<not> findKeys_ready env"
  shows "rb_run (replicate n env) s = s"
  by (induction n) (simp_all add: rebroadcastWorker_blocked_in_send [OF assms])

lemma rand_Intn_demo: "rand_Intn 3 [17179869184] = Some 1"
  by (simp add: rand_Intn_def Int31_def)

lemma rebroadcastWorker_demo_broadcast:
  "rebroadcastWorker_step rb_demo_broadcast rb_init =
      \<lparr>rb_phase = AtFindKeys ''Y'', findKeys_sent = [], metrics_logged = [],
       timers_stopped = False\<rparr>"
proof -
  have c: "rb_chosen rb_demo_broadcast = Chosen BroadcastCase"
    by (simp add: rb_chosen_def go_select_def when_ready_def rb_demo_broadcast_def)
  have l: "length (CurrentWants rb_demo_broadcast) = 3"
    and d: "rand_Int63 rb_demo_broadcast = [17179869184]"
    and e: "Entry_Cid (CurrentWants rb_demo_broadcast ! Suc 0) = ''Y''"
    by (simp_all add: rb_demo_broadcast_def)
  have "pick_entry rb_demo_broadcast (CurrentWants rb_demo_broadcast) rb_init =
      rb_init\<lparr>rb_phase := AtFindKeys ''Y''\<rparr>"
    by (simp add: pick_entry_def l d rand_Intn_demo e)
  moreover have "CurrentWants rb_demo_broadcast \<noteq> []" using l by auto
  ultimately show ?thesis using c
    by (simp add: rebroadcastWorker_step_def Let_def rb_init_def)
qed

text \<open>
  C6, on the code. The rebroadcast ticker fires with a non-empty want-list while
  \<^verbatim>\<open>bs.findKeys\<close> takes no value; the worker reaches the send of line 200. From then on
  the parent context is done and \<^verbatim>\<open>bs.findKeys\<close> still takes no value: however many
  times the worker is scheduled, it stays at the send, it has not returned and the
  timers are not stopped.
\<close>

theorem rebroadcastWorker_send_ignores_cancel:
  "rb_run (rb_demo_broadcast # replicate n rb_demo_cancelled) rb_init =
     \<lparr>rb_phase = AtFindKeys ''Y'', findKeys_sent = [], metrics_logged = [],
      timers_stopped = False\<rparr> \<and>
   parent_done rb_demo_cancelled"
proof -
  note st = rebroadcastWorker_demo_broadcast
  have "rb_run (replicate n rb_demo_cancelled)
      \<lparr>rb_phase = AtFindKeys ''Y'', findKeys_sent = [], metrics_logged = [],
       timers_stopped = False\<rparr> =
      \<lparr>rb_phase = AtFindKeys ''Y'', findKeys_sent = [], metrics_logged = [],
       timers_stopped = False\<rparr>"
    by (rule rb_run_blocked_in_send [where c = "''Y''"]) (simp_all add: rb_demo_cancelled_def)
  with st show ?thesis by (simp add: rb_demo_cancelled_def)
qed

subsection \<open>The random index\<close>

lemma and_pred_double: "0 < m \<Longrightarrow> (2 * m) AND (2 * m - 1) = 2 * (m AND (m - 1))" for m :: nat
proof -
  assume m: "0 < m"
  then have "(2 * m - 1) div 2 = m - 1" by (cases m) simp_all
  moreover from m have "2 * m - 1 \<noteq> 0" by simp
  ultimately show ?thesis using m
    by (subst and_nat_unfold) simp
qed

lemma and_pred_odd: "(2 * m + 1) AND (2 * m) = 2 * m" for m :: nat
  by (subst and_nat_unfold) simp

lemma pow2_char:
  "0 < n \<Longrightarrow> n AND (n - 1) = 0 \<Longrightarrow> \<exists>k. n = 2 ^ k" for n :: nat
proof (induction n rule: less_induct)
  case (less n)
  show ?case
  proof (cases "even n")
    case True
    then obtain m where n: "n = 2 * m" by (auto elim: evenE)
    with less.prems have m: "0 < m" by simp
    from less.prems(2) n and_pred_double [OF m] have "m AND (m - 1) = 0" by simp
    moreover from n m have "m < n" by simp
    ultimately obtain k where "m = 2 ^ k" using less.IH m by blast
    with n have "n = 2 ^ Suc k" by simp
    then show ?thesis by blast
  next
    case False
    then obtain m where n: "n = 2 * m + 1" by (auto elim: oddE)
    with less.prems(2) and_pred_odd [of m] have "m = 0" by simp
    with n have "n = 2 ^ 0" by simp
    then show ?thesis by blast
  qed
qed

lemma and_pow2_pred: "v AND (2 ^ k - 1) = v mod 2 ^ k" for v :: nat
proof -
  have "v AND mask k = take_bit k v" by (simp add: take_bit_eq_mask)
  also have "\<dots> = v mod 2 ^ k" by (simp add: take_bit_eq_mod)
  finally show ?thesis by (simp only: mask_eq_exp_minus_1)
qed

lemma mod_class_image:
  assumes "j < (K::nat)"
  shows "{d. d < K * m \<and> d mod K = j} = (\<lambda>i. j + K * i) ` {..<m}"
proof (intro set_eqI iffI)
  fix d assume "d \<in> {d. d < K * m \<and> d mod K = j}"
  then have lt: "d < K * m" and md: "d mod K = j" by simp_all
  from assms have K: "0 < K" by simp
  from lt K have "d div K < m" by (simp add: less_mult_imp_div_less mult.commute)
  moreover have "d = j + K * (d div K)" using md by (metis add.commute mult_div_mod_eq)
  ultimately show "d \<in> (\<lambda>i. j + K * i) ` {..<m}" by blast
next
  fix d assume "d \<in> (\<lambda>i. j + K * i) ` {..<m}"
  then obtain i where i: "i < m" and d: "d = j + K * i" by auto
  from i have "Suc i \<le> m" by simp
  then have "K * Suc i \<le> K * m" by (rule mult_le_mono2)
  with assms d have "d < K * m" by simp
  moreover from assms d have "d mod K = j" by simp
  ultimately show "d \<in> {d. d < K * m \<and> d mod K = j}" by simp
qed

lemma card_mod_class:
  assumes "j < (K::nat)"
  shows "card {d. d < K * m \<and> d mod K = j} = m"
proof -
  from assms have "inj_on (\<lambda>i. j + K * i) {..<m}" by (auto simp: inj_on_def)
  then show ?thesis by (simp add: mod_class_image [OF assms] card_image)
qed

lemma accepted_values:
  fixes n :: nat
  assumes n0: "0 < n" and nB: "n < 2 ^ B" and j: "j < n"
  shows "{v. v < 2 ^ B \<and>
            (if n AND (n - 1) = 0 then v AND (n - 1) = j
             else v \<le> 2 ^ B - 1 - 2 ^ B mod n \<and> v mod n = j)}
         = {v. v < n * (2 ^ B div n) \<and> v mod n = j}"
proof (cases "n AND (n - 1) = 0")
  case True
  from pow2_char [OF n0 True] obtain k where k: "n = 2 ^ k" by blast
  with nB have "k < B" by simp
  then have "(2::nat) ^ B = 2 ^ k * 2 ^ (B - k)" by (simp flip: power_add)
  then have eq: "n * (2 ^ B div n) = 2 ^ B" using k by simp
  have m: "v AND (n - 1) = v mod n" for v unfolding k by (rule and_pow2_pred)
  show ?thesis unfolding eq by (simp only: m mod_self simp_thms if_True)
next
  case False
  have r: "2 ^ B mod n < n" using n0 by simp
  with nB have rB: "2 ^ B mod n < 2 ^ B" by simp
  have e: "n * (2 ^ B div n) = 2 ^ B - 2 ^ B mod n" by (simp add: minus_mod_eq_mult_div)
  have "v \<le> 2 ^ B - 1 - 2 ^ B mod n \<longleftrightarrow> v < 2 ^ B - 2 ^ B mod n" for v
    using rB by auto
  moreover have "v < 2 ^ B - 2 ^ B mod n \<Longrightarrow> v < 2 ^ B" for v by simp
  ultimately show ?thesis using False unfolding e by auto
qed

lemma accepted_count:
  fixes n :: nat
  assumes n0: "0 < n" and nB: "n < 2 ^ B" and j: "j < n"
  shows "card {v. v < 2 ^ B \<and>
            (if n AND (n - 1) = 0 then v AND (n - 1) = j
             else v \<le> 2 ^ B - 1 - 2 ^ B mod n \<and> v mod n = j)} = 2 ^ B div n"
  unfolding accepted_values [OF assms] by (rule card_mod_class [OF j])

lemma card_word63:
  "card {d :: 63 word. Q (unat d)} = card {x. x < 2 ^ 63 \<and> Q x}"
proof (rule bij_betw_same_card [where f = unat])
  show "bij_betw unat {d :: 63 word. Q (unat d)} {x. x < 2 ^ 63 \<and> Q x}"
    unfolding bij_betw_def
  proof
    show "inj_on unat {d :: 63 word. Q (unat d)}" by (metis inj_onI word_unat_eq_iff)
    show "unat ` {d :: 63 word. Q (unat d)} = {x. x < 2 ^ 63 \<and> Q x}"
    proof (intro set_eqI iffI)
      fix x assume "x \<in> unat ` {d :: 63 word. Q (unat d)}"
      then obtain d :: "63 word" where "x = unat d" "Q (unat d)" by auto
      moreover have "unat d < 2 ^ 63" using unsigned_less [of d, where ?'a = nat] by simp
      ultimately show "x \<in> {x. x < 2 ^ 63 \<and> Q x}" by simp
    next
      fix x assume "x \<in> {x. x < 2 ^ 63 \<and> Q x}"
      then have x: "x < 2 ^ 63" and q: "Q x" by simp_all
      from x have "unat (of_nat x :: 63 word) = x" by (simp add: unat_of_nat)
      then have u: "unat (of_nat x :: 63 word) = x" .
      with q have "(of_nat x :: 63 word) \<in> {d. Q (unat d)}" by simp
      then have "unat (of_nat x :: 63 word) \<in> unat ` {d :: 63 word. Q (unat d)}"
        by (rule imageI)
      then show "x \<in> unat ` {d :: 63 word. Q (unat d)}" unfolding u .
    qed
  qed
qed

lemma card_high_bits:
  "card {x::nat. x < 2 ^ 63 \<and> Q (x div 2 ^ 32)} = 2 ^ 32 * card {v. v < 2 ^ 31 \<and> Q v}"
proof -
  let ?A = "{v::nat. v < 2 ^ 31 \<and> Q v}"
  let ?f = "\<lambda>(v::nat, r::nat). v * 2 ^ 32 + r"
  have fin: "finite ?A" by simp
  have inj: "inj_on ?f (?A \<times> {..<2 ^ 32})"
  proof (rule inj_onI, clarify)
    fix v r v' r' :: nat
    assume r: "r < 2 ^ 32" and r': "r' < 2 ^ 32" and e: "v * 2 ^ 32 + r = v' * 2 ^ 32 + r'"
    from e have "(v * 2 ^ 32 + r) div 2 ^ 32 = (v' * 2 ^ 32 + r') div 2 ^ 32" by simp
    with r r' have "v = v'" by simp
    with e show "v = v' \<and> r = r'" by simp
  qed
  have img: "?f ` (?A \<times> {..<2 ^ 32}) = {x. x < 2 ^ 63 \<and> Q (x div 2 ^ 32)}"
  proof (intro set_eqI iffI)
    fix x assume "x \<in> ?f ` (?A \<times> {..<2 ^ 32})"
    then obtain v r where v: "v < 2 ^ 31" and q: "Q v" and r: "r < 2 ^ 32"
      and x: "x = v * 2 ^ 32 + r" by auto
    from r x have d: "x div 2 ^ 32 = v" by simp
    from v have "Suc v \<le> 2 ^ 31" by simp
    then have "Suc v * 2 ^ 32 \<le> 2 ^ 31 * (2 ^ 32 :: nat)" by (rule mult_le_mono1)
    with r x have "x < 2 ^ 63" by simp
    with d q show "x \<in> {x. x < 2 ^ 63 \<and> Q (x div 2 ^ 32)}" by simp
  next
    fix x :: nat assume "x \<in> {x. x < 2 ^ 63 \<and> Q (x div 2 ^ 32)}"
    then have x: "x < 2 ^ 63" and q: "Q (x div 2 ^ 32)" by simp_all
    from x have "x div 2 ^ 32 < 2 ^ 31" by (simp add: less_mult_imp_div_less)
    moreover have "x mod 2 ^ 32 < (2 ^ 32 :: nat)" by simp
    moreover have "x = (x div 2 ^ 32) * 2 ^ 32 + x mod 2 ^ 32" by simp
    ultimately have "x \<in> ?f ` (?A \<times> {..<2 ^ 32})" using q
      by (intro image_eqI [where x = "(x div 2 ^ 32, x mod 2 ^ 32)"]) simp_all
    then show "x \<in> ?f ` (?A \<times> {..<2 ^ 32})" .
  qed
  have "card {x. x < 2 ^ 63 \<and> Q (x div 2 ^ 32)} = card (?A \<times> {..<(2 ^ 32 :: nat)})"
    unfolding img [symmetric] using inj by (rule card_image)
  also have "\<dots> = card ?A * 2 ^ 32" by (simp add: card_cartesian_product)
  finally show ?thesis by (simp add: mult.commute)
qed

lemma Int31_div: "Int31 d = unat d div 2 ^ 32"
  by (simp add: Int31_def drop_bit_eq_div unat_div)

lemma card_Int31:
  "card {d :: 63 word. Q (Int31 d)} = 2 ^ 32 * card {v. v < 2 ^ 31 \<and> Q v}"
  unfolding Int31_div card_word63 [of "\<lambda>x. Q (x div 2 ^ 32)"] by (rule card_high_bits)

lemma Int31n_single:
  "(Int31n n [d] = Some j) =
     (if n AND (n - 1) = 0 then Int31 d AND (n - 1) = j
      else Int31 d \<le> 2 ^ 31 - 1 - 2 ^ 31 mod n \<and> Int31 d mod n = j)"
  by (auto simp: Let_def)

lemma Int63n_single:
  "(Int63n n [d] = Some j) =
     (if n AND (n - 1) = 0 then unat d AND (n - 1) = j
      else unat d \<le> 2 ^ 63 - 1 - 2 ^ 63 mod n \<and> unat d mod n = j)"
  by (auto simp: Let_def)

lemma rand_Intn_count:
  assumes n0: "0 < n" and n63: "n < 2 ^ 63" and j: "j < n"
  shows "card {d. rand_Intn n [d] = Some j} =
           (if n \<le> 2 ^ 31 - 1 then 2 ^ 32 * (2 ^ 31 div n) else 2 ^ 63 div n)"
proof (cases "n \<le> 2 ^ 31 - 1")
  case True
  then have n31: "n < 2 ^ 31" by simp
  let ?P = "\<lambda>v. if n AND (n - 1) = 0 then v AND (n - 1) = j
             else v \<le> 2 ^ 31 - 1 - 2 ^ 31 mod n \<and> v mod n = j"
  from True have "{d. rand_Intn n [d] = Some j} = {d. ?P (Int31 d)}"
    by (simp only: rand_Intn_def if_True Int31n_single)
  then have "card {d. rand_Intn n [d] = Some j} = 2 ^ 32 * card {v. v < 2 ^ 31 \<and> ?P v}"
    by (simp only: card_Int31 [of ?P])
  with accepted_count [OF n0 n31 j] True show ?thesis by (simp only: if_True)
next
  case False
  let ?P = "\<lambda>v. if n AND (n - 1) = 0 then v AND (n - 1) = j
             else v \<le> 2 ^ 63 - 1 - 2 ^ 63 mod n \<and> v mod n = j"
  from False have "{d. rand_Intn n [d] = Some j} = {d. ?P (unat d)}"
    by (simp only: rand_Intn_def if_False Int63n_single)
  then have "card {d. rand_Intn n [d] = Some j} = card {v. v < 2 ^ 63 \<and> ?P v}"
    by (simp only: card_word63 [of ?P])
  with accepted_count [OF n0 n63 j] False show ?thesis by (simp only: if_False)
qed

lemma and_pred_less:
  "0 < n \<Longrightarrow> n AND (n - 1) = 0 \<Longrightarrow> v AND (n - 1) < n" for n v :: nat
proof -
  assume n0: "0 < n" and p: "n AND (n - 1) = 0"
  from pow2_char [OF n0 p] obtain k where k: "n = 2 ^ k" by blast
  have "v AND (n - 1) = v mod n" unfolding k by (rule and_pow2_pred)
  with n0 show ?thesis by simp
qed

lemma Int31n_range: "0 < n \<Longrightarrow> Int31n n ds = Some i \<Longrightarrow> i < n"
proof (induction ds)
  case Nil
  then show ?case by simp
next
  case (Cons d ds)
  show ?case
  proof (cases "n AND (n - 1) = 0")
    case True
    with Cons.prems(2) have "i = Int31 d AND (n - 1)" by (simp del: One_nat_def)
    with and_pred_less [OF Cons.prems(1) True] show ?thesis by simp
  next
    case False
    show ?thesis
    proof (cases "Int31 d > 2 ^ 31 - 1 - 2 ^ 31 mod n")
      case True
      with False Cons.prems(2) have "Int31n n ds = Some i" by (simp del: One_nat_def)
      with Cons.IH Cons.prems(1) show ?thesis by blast
    next
      case False
      with \<open>n AND (n - 1) \<noteq> 0\<close> Cons.prems(2) have "i = Int31 d mod n" by (simp del: One_nat_def)
      with Cons.prems(1) show ?thesis by simp
    qed
  qed
qed

lemma Int63n_range: "0 < n \<Longrightarrow> Int63n n ds = Some i \<Longrightarrow> i < n"
proof (induction ds)
  case Nil
  then show ?case by simp
next
  case (Cons d ds)
  show ?case
  proof (cases "n AND (n - 1) = 0")
    case True
    with Cons.prems(2) have "i = unat d AND (n - 1)" by (simp del: One_nat_def)
    with and_pred_less [OF Cons.prems(1) True] show ?thesis by simp
  next
    case False
    show ?thesis
    proof (cases "unat d > 2 ^ 63 - 1 - 2 ^ 63 mod n")
      case True
      with False Cons.prems(2) have "Int63n n ds = Some i" by (simp del: One_nat_def)
      with Cons.IH Cons.prems(1) show ?thesis by blast
    next
      case False
      with \<open>n AND (n - 1) \<noteq> 0\<close> Cons.prems(2) have "i = unat d mod n" by (simp del: One_nat_def)
      with Cons.prems(1) show ?thesis by simp
    qed
  qed
qed

lemma rand_Intn_range:
  assumes "0 < n" and "rand_Intn n ds = Some i"
  shows "i < n"
proof (cases "n \<le> 2 ^ 31 - 1")
  case True
  with assms(2) have "Int31n n ds = Some i" by (simp only: rand_Intn_def if_True)
  with assms(1) show ?thesis by (rule Int31n_range)
next
  case False
  with assms(2) have "Int63n n ds = Some i" by (simp only: rand_Intn_def if_False)
  with assms(1) show ?thesis by (rule Int63n_range)
qed

lemma rebroadcastWorker_step_pick:
  assumes "rb_phase s = AtTimers" and "rb_chosen env = Chosen BroadcastCase"
    and "CurrentWants env \<noteq> []"
  shows "rebroadcastWorker_step env s = pick_entry env (CurrentWants env) s"
  using assms by (simp add: rebroadcastWorker_step_def Let_def)

lemma pick_entry_cases:
  assumes "entries \<noteq> []"
  shows "case rand_Intn (length entries) (rand_Int63 env) of
           None \<Rightarrow> pick_entry env entries s = s\<lparr>rb_phase := InIntn entries\<rparr>
         | Some i \<Rightarrow> i < length entries \<and>
             pick_entry env entries s = s\<lparr>rb_phase := AtFindKeys (Entry_Cid (entries ! i))\<rparr>"
proof (cases "rand_Intn (length entries) (rand_Int63 env)")
  case None
  then show ?thesis by (simp add: pick_entry_def)
next
  case (Some i)
  from assms have "0 < length entries" by simp
  from rand_Intn_range [OF this Some] Some show ?thesis by (simp add: pick_entry_def)
qed

lemma pick_entry_selects:
  assumes ne: "entries \<noteq> []" and dist: "distinct (map Entry_Cid entries)"
    and j: "j < length entries"
  shows "(pick_entry (env\<lparr>rand_Int63 := [d]\<rparr>) entries s =
            s\<lparr>rb_phase := AtFindKeys (Entry_Cid (entries ! j))\<rparr>)
         = (rand_Intn (length entries) [d] = Some j)"
proof (cases "rand_Intn (length entries) [d]")
  case None
  have "rb_phase (s\<lparr>rb_phase := InIntn entries\<rparr>)
      \<noteq> rb_phase (s\<lparr>rb_phase := AtFindKeys (Entry_Cid (entries ! j))\<rparr>)" by simp
  then have "s\<lparr>rb_phase := InIntn entries\<rparr>
      \<noteq> s\<lparr>rb_phase := AtFindKeys (Entry_Cid (entries ! j))\<rparr>" by metis
  with None show ?thesis by (simp add: pick_entry_def)
next
  case (Some i)
  from ne have "0 < length entries" by simp
  from rand_Intn_range [OF this Some] have i: "i < length entries" .
  have "(Entry_Cid (entries ! i) = Entry_Cid (entries ! j)) = (i = j)"
    using nth_eq_iff_index_eq [OF dist, of i j] i j by simp
  moreover have "(s\<lparr>rb_phase := AtFindKeys (Entry_Cid (entries ! i))\<rparr> =
      s\<lparr>rb_phase := AtFindKeys (Entry_Cid (entries ! j))\<rparr>)
      = (Entry_Cid (entries ! i) = Entry_Cid (entries ! j))"
  proof
    assume "s\<lparr>rb_phase := AtFindKeys (Entry_Cid (entries ! i))\<rparr> =
      s\<lparr>rb_phase := AtFindKeys (Entry_Cid (entries ! j))\<rparr>"
    then have "rb_phase (s\<lparr>rb_phase := AtFindKeys (Entry_Cid (entries ! i))\<rparr>) =
      rb_phase (s\<lparr>rb_phase := AtFindKeys (Entry_Cid (entries ! j))\<rparr>)" by (rule arg_cong)
    then show "Entry_Cid (entries ! i) = Entry_Cid (entries ! j)" by simp
  next
    assume "Entry_Cid (entries ! i) = Entry_Cid (entries ! j)"
    then show "s\<lparr>rb_phase := AtFindKeys (Entry_Cid (entries ! i))\<rparr> =
      s\<lparr>rb_phase := AtFindKeys (Entry_Cid (entries ! j))\<rparr>" by simp
  qed
  ultimately show ?thesis using Some by (simp add: pick_entry_def)
qed

lemma share_positive:
  assumes "0 < K" and "K < 2 ^ 63"
  shows "0 < (if K \<le> 2 ^ 31 - 1 then 2 ^ 32 * (2 ^ 31 div K) else 2 ^ 63 div K :: nat)"
proof (cases "K \<le> 2 ^ 31 - 1")
  case True
  with assms(1) have "0 < (2 ^ 31 :: nat) div K" by (simp add: div_greater_zero_iff)
  with True show ?thesis by simp
next
  case False
  from assms have "0 < (2 ^ 63 :: nat) div K" by (simp add: div_greater_zero_iff)
  with False show ?thesis by simp
qed

text \<open>
  C7. Rebroadcast selection. For a worker at its \<^verbatim>\<open>select\<close>: when the rebroadcast
  ticker is the case that runs and the want-list is empty, nothing changes. When the
  want-list has \<open>K > 0\<close> entries, the worker calls \<^verbatim>\<open>rand.Intn(K)\<close> and, once the
  library has accepted a value, is at the send of one request, for the entry at the index
  returned, which is below \<open>K\<close>; while the library is still drawing nothing is sent or
  prepared. The index is uniform: for pairwise distinct entries and \<open>K\<close> in the range
  of an \<^verbatim>\<open>int\<close>, of the \<open>2 ^ 63\<close> values that the generator can return, those for
  which the worker selects the entry at index \<open>j\<close> number the same for every
  \<open>j < K\<close>, at least one (\<open>2 ^ 32 * (2 ^ 31 div K)\<close> for \<open>K\<close> up to
  \<open>2 ^ 31 - 1\<close>, \<open>2 ^ 63 div K\<close> above), and the other values make the library draw
  again. Once \<^verbatim>\<open>bs.findKeys\<close> takes the value, that request and no other has been added
  to those sent and the worker is back at its \<^verbatim>\<open>select\<close>. When the metrics ticker is
  the case that runs, no request is sent or prepared.
\<close>

theorem rebroadcastWorker_selection:
  assumes "rb_phase s = AtTimers"
  shows "(rb_chosen env = Chosen BroadcastCase \<and> CurrentWants env = [] \<longrightarrow>
            rebroadcastWorker_step env s = s) \<and>
         (rb_chosen env = Chosen BroadcastCase \<and> CurrentWants env \<noteq> [] \<longrightarrow>
            (case rand_Intn (length (CurrentWants env)) (rand_Int63 env) of
               None \<Rightarrow> rebroadcastWorker_step env s = s\<lparr>rb_phase := InIntn (CurrentWants env)\<rparr>
             | Some i \<Rightarrow> i < length (CurrentWants env) \<and>
                 rebroadcastWorker_step env s =
                   s\<lparr>rb_phase := AtFindKeys (Entry_Cid (CurrentWants env ! i))\<rparr>)) \<and>
         (\<forall>entries env'. entries \<noteq> [] \<longrightarrow>
            (case rand_Intn (length entries) (rand_Int63 env') of
               None \<Rightarrow> rebroadcastWorker_step env' (s\<lparr>rb_phase := InIntn entries\<rparr>)
                         = s\<lparr>rb_phase := InIntn entries\<rparr>
             | Some i \<Rightarrow> i < length entries \<and>
                 rebroadcastWorker_step env' (s\<lparr>rb_phase := InIntn entries\<rparr>) =
                   s\<lparr>rb_phase := AtFindKeys (Entry_Cid (entries ! i))\<rparr>)) \<and>
         (rb_chosen env = Chosen BroadcastCase \<and> CurrentWants env \<noteq> [] \<and>
          length (CurrentWants env) < 2 ^ 63 \<and> distinct (map Entry_Cid (CurrentWants env)) \<longrightarrow>
            (\<forall>j<length (CurrentWants env).
               card {d. rebroadcastWorker_step (env\<lparr>rand_Int63 := [d]\<rparr>) s =
                          s\<lparr>rb_phase := AtFindKeys (Entry_Cid (CurrentWants env ! j))\<rparr>}
               = (if length (CurrentWants env) \<le> 2 ^ 31 - 1
                  then 2 ^ 32 * (2 ^ 31 div length (CurrentWants env))
                  else 2 ^ 63 div length (CurrentWants env))) \<and>
            0 < (if length (CurrentWants env) \<le> 2 ^ 31 - 1
                 then 2 ^ 32 * (2 ^ 31 div length (CurrentWants env))
                 else 2 ^ 63 div length (CurrentWants env) :: nat)) \<and>
         (\<forall>c env'. findKeys_ready env' \<longrightarrow>
            rebroadcastWorker_step env' (s\<lparr>rb_phase := AtFindKeys c\<rparr>) =
              s\<lparr>rb_phase := AtTimers, findKeys_sent := findKeys_sent s @ [c]\<rparr>) \<and>
         (rb_chosen env = Chosen TickCase \<longrightarrow>
            findKeys_sent (rebroadcastWorker_step env s) = findKeys_sent s \<and>
            rb_phase (rebroadcastWorker_step env s) = AtTimers)"
proof (intro conjI allI impI; (elim conjE)?)
  assume "rb_chosen env = Chosen BroadcastCase" "CurrentWants env = []"
  with assms show "rebroadcastWorker_step env s = s"
    by (simp add: rebroadcastWorker_step_def)
next
  assume c: "rb_chosen env = Chosen BroadcastCase" and ne: "CurrentWants env \<noteq> []"
  show "case rand_Intn (length (CurrentWants env)) (rand_Int63 env) of
          None \<Rightarrow> rebroadcastWorker_step env s = s\<lparr>rb_phase := InIntn (CurrentWants env)\<rparr>
        | Some i \<Rightarrow> i < length (CurrentWants env) \<and>
            rebroadcastWorker_step env s =
              s\<lparr>rb_phase := AtFindKeys (Entry_Cid (CurrentWants env ! i))\<rparr>"
    unfolding rebroadcastWorker_step_pick [OF assms c ne] using ne by (rule pick_entry_cases)
next
  fix entries :: "wantlist_entry list" and env' :: rb_env assume ne: "entries \<noteq> []"
  have "rebroadcastWorker_step env' (s\<lparr>rb_phase := InIntn entries\<rparr>)
      = pick_entry env' entries (s\<lparr>rb_phase := InIntn entries\<rparr>)"
    by (simp add: rebroadcastWorker_step_def)
  moreover have "s\<lparr>rb_phase := InIntn entries, rb_phase := p\<rparr> = s\<lparr>rb_phase := p\<rparr>" for p
    by simp
  ultimately show "case rand_Intn (length entries) (rand_Int63 env') of
          None \<Rightarrow> rebroadcastWorker_step env' (s\<lparr>rb_phase := InIntn entries\<rparr>)
                    = s\<lparr>rb_phase := InIntn entries\<rparr>
        | Some i \<Rightarrow> i < length entries \<and>
            rebroadcastWorker_step env' (s\<lparr>rb_phase := InIntn entries\<rparr>) =
              s\<lparr>rb_phase := AtFindKeys (Entry_Cid (entries ! i))\<rparr>"
    using pick_entry_cases [OF ne, of env' "s\<lparr>rb_phase := InIntn entries\<rparr>"]
    by (simp split: option.splits)
next
  fix j
  assume c: "rb_chosen env = Chosen BroadcastCase" and ne: "CurrentWants env \<noteq> []"
    and k63: "length (CurrentWants env) < 2 ^ 63"
    and dist: "distinct (map Entry_Cid (CurrentWants env))"
    and j: "j < length (CurrentWants env)"
  have st: "rebroadcastWorker_step (env\<lparr>rand_Int63 := [d]\<rparr>) s
      = pick_entry (env\<lparr>rand_Int63 := [d]\<rparr>) (CurrentWants env) s" for d
    using rebroadcastWorker_step_pick [OF assms, of "env\<lparr>rand_Int63 := [d]\<rparr>"] c ne
    by (simp add: rb_chosen_def)
  have "{d. rebroadcastWorker_step (env\<lparr>rand_Int63 := [d]\<rparr>) s =
               s\<lparr>rb_phase := AtFindKeys (Entry_Cid (CurrentWants env ! j))\<rparr>}
      = {d. rand_Intn (length (CurrentWants env)) [d] = Some j}"
    unfolding st pick_entry_selects [OF ne dist j] ..
  moreover from ne have "0 < length (CurrentWants env)" by simp
  ultimately show "card {d. rebroadcastWorker_step (env\<lparr>rand_Int63 := [d]\<rparr>) s =
               s\<lparr>rb_phase := AtFindKeys (Entry_Cid (CurrentWants env ! j))\<rparr>}
    = (if length (CurrentWants env) \<le> 2 ^ 31 - 1
       then 2 ^ 32 * (2 ^ 31 div length (CurrentWants env))
       else 2 ^ 63 div length (CurrentWants env))"
    using rand_Intn_count [OF _ k63 j] by simp
next
  assume ne: "CurrentWants env \<noteq> []" and k63: "length (CurrentWants env) < 2 ^ 63"
  from ne have "0 < length (CurrentWants env)" by simp
  then show "0 < (if length (CurrentWants env) \<le> 2 ^ 31 - 1
                 then 2 ^ 32 * (2 ^ 31 div length (CurrentWants env))
                 else 2 ^ 63 div length (CurrentWants env) :: nat)"
    using k63 by (rule share_positive)
next
  fix c and env' :: rb_env assume "findKeys_ready env'"
  then show "rebroadcastWorker_step env' (s\<lparr>rb_phase := AtFindKeys c\<rparr>) =
      s\<lparr>rb_phase := AtTimers, findKeys_sent := findKeys_sent s @ [c]\<rparr>"
    by (simp add: rebroadcastWorker_step_def)
next
  assume "rb_chosen env = Chosen TickCase"
  with assms show "findKeys_sent (rebroadcastWorker_step env s) = findKeys_sent s"
    by (simp add: rebroadcastWorker_step_def Let_def)
next
  assume "rb_chosen env = Chosen TickCase"
  with assms show "rb_phase (rebroadcastWorker_step env s) = AtTimers"
    by (simp add: rebroadcastWorker_step_def Let_def)
qed

lemma rand_Intn_demo_redraw: "rand_Intn 3 [9223372036854775807] = None"
  by (simp add: rand_Intn_def Int31_def)

theorem rebroadcastWorker_selection_witness:
  "rb_phase rb_init = AtTimers \<and> rb_chosen rb_demo_broadcast = Chosen BroadcastCase \<and>
   CurrentWants rb_demo_broadcast \<noteq> [] \<and> length (CurrentWants rb_demo_broadcast) < 2 ^ 63 \<and>
   distinct (map Entry_Cid (CurrentWants rb_demo_broadcast)) \<and>
   rebroadcastWorker_step rb_demo_broadcast rb_init = rb_init\<lparr>rb_phase := AtFindKeys ''Y''\<rparr> \<and>
   rb_chosen rb_demo_redraw = Chosen BroadcastCase \<and>
   rebroadcastWorker_step rb_demo_redraw rb_init
     = rb_init\<lparr>rb_phase := InIntn (CurrentWants rb_demo_redraw)\<rparr> \<and>
   rebroadcastWorker_step rb_demo_broadcast
       (rb_init\<lparr>rb_phase := InIntn (CurrentWants rb_demo_redraw)\<rparr>)
     = rb_init\<lparr>rb_phase := AtFindKeys ''Y''\<rparr> \<and>
   card {d. rebroadcastWorker_step (rb_demo_broadcast\<lparr>rand_Int63 := [d]\<rparr>) rb_init
              = rb_init\<lparr>rb_phase := AtFindKeys ''Z''\<rparr>} = 3074457342754947072 \<and>
   card {d. rebroadcastWorker_step (rb_demo_broadcast\<lparr>rand_Int63 := [d]\<rparr>) rb_init
              = rb_init\<lparr>rb_phase := AtFindKeys ''X''\<rparr>} = 3074457342754947072 \<and>
   findKeys_ready rb_demo_accept \<and>
   rebroadcastWorker_step rb_demo_accept (rb_init\<lparr>rb_phase := AtFindKeys ''Y''\<rparr>)
     = rb_init\<lparr>rb_phase := AtTimers, findKeys_sent := [''Y'']\<rparr> \<and>
   rb_chosen rb_demo_tick = Chosen TickCase \<and>
   findKeys_sent (rebroadcastWorker_step rb_demo_tick rb_init) = []"
proof -
  have h: "rb_phase rb_init = AtTimers" by (simp add: rb_init_def)
  have b: "rb_chosen rb_demo_broadcast = Chosen BroadcastCase"
    and r: "rb_chosen rb_demo_redraw = Chosen BroadcastCase"
    and t: "rb_chosen rb_demo_tick = Chosen TickCase"
    by (simp_all add: rb_chosen_def go_select_def when_ready_def rb_demo_broadcast_def
        rb_demo_redraw_def rb_demo_tick_def)
  have w: "CurrentWants rb_demo_broadcast \<noteq> []" and wr: "CurrentWants rb_demo_redraw \<noteq> []"
    and a: "findKeys_ready rb_demo_accept"
    and d: "distinct (map Entry_Cid (CurrentWants rb_demo_broadcast))"
    by (simp_all add: rb_demo_broadcast_def rb_demo_redraw_def rb_demo_accept_def)
  have l: "length (CurrentWants rb_demo_broadcast) = 3"
    and lr: "length (CurrentWants rb_demo_redraw) = 3"
    and src: "rand_Int63 rb_demo_broadcast = [17179869184]"
    and srcr: "rand_Int63 rb_demo_redraw = [9223372036854775807]"
    and y: "Entry_Cid (CurrentWants rb_demo_broadcast ! 1) = ''Y''"
    and yr: "Entry_Cid (CurrentWants rb_demo_redraw ! 1) = ''Y''"
    and z: "Entry_Cid (CurrentWants rb_demo_broadcast ! 2) = ''Z''"
    and x: "Entry_Cid (CurrentWants rb_demo_broadcast ! 0) = ''X''"
    and f: "findKeys_sent rb_init = []"
    by (simp_all add: rb_demo_broadcast_def rb_demo_redraw_def rb_init_def)
  from l have k: "length (CurrentWants rb_demo_broadcast) < 2 ^ 63" by simp
  note sel = rebroadcastWorker_selection [OF h]
  from sel [of rb_demo_broadcast] b w
  have "case rand_Intn (length (CurrentWants rb_demo_broadcast)) (rand_Int63 rb_demo_broadcast) of
      None \<Rightarrow> rebroadcastWorker_step rb_demo_broadcast rb_init
                = rb_init\<lparr>rb_phase := InIntn (CurrentWants rb_demo_broadcast)\<rparr>
    | Some i \<Rightarrow> i < length (CurrentWants rb_demo_broadcast) \<and>
        rebroadcastWorker_step rb_demo_broadcast rb_init =
          rb_init\<lparr>rb_phase := AtFindKeys (Entry_Cid (CurrentWants rb_demo_broadcast ! i))\<rparr>"
    by blast
  then have c1: "rebroadcastWorker_step rb_demo_broadcast rb_init
      = rb_init\<lparr>rb_phase := AtFindKeys ''Y''\<rparr>"
    unfolding l src rand_Intn_demo using y by simp
  from sel [of rb_demo_redraw] r wr
  have "case rand_Intn (length (CurrentWants rb_demo_redraw)) (rand_Int63 rb_demo_redraw) of
      None \<Rightarrow> rebroadcastWorker_step rb_demo_redraw rb_init
                = rb_init\<lparr>rb_phase := InIntn (CurrentWants rb_demo_redraw)\<rparr>
    | Some i \<Rightarrow> i < length (CurrentWants rb_demo_redraw) \<and>
        rebroadcastWorker_step rb_demo_redraw rb_init =
          rb_init\<lparr>rb_phase := AtFindKeys (Entry_Cid (CurrentWants rb_demo_redraw ! i))\<rparr>"
    by blast
  then have c2: "rebroadcastWorker_step rb_demo_redraw rb_init
      = rb_init\<lparr>rb_phase := InIntn (CurrentWants rb_demo_redraw)\<rparr>"
    unfolding lr srcr rand_Intn_demo_redraw by simp
  from sel [of rb_demo_broadcast] wr
  have "case rand_Intn (length (CurrentWants rb_demo_redraw)) (rand_Int63 rb_demo_broadcast) of
      None \<Rightarrow> rebroadcastWorker_step rb_demo_broadcast
                 (rb_init\<lparr>rb_phase := InIntn (CurrentWants rb_demo_redraw)\<rparr>)
                = rb_init\<lparr>rb_phase := InIntn (CurrentWants rb_demo_redraw)\<rparr>
    | Some i \<Rightarrow> i < length (CurrentWants rb_demo_redraw) \<and>
        rebroadcastWorker_step rb_demo_broadcast
          (rb_init\<lparr>rb_phase := InIntn (CurrentWants rb_demo_redraw)\<rparr>) =
          rb_init\<lparr>rb_phase := AtFindKeys (Entry_Cid (CurrentWants rb_demo_redraw ! i))\<rparr>"
    by blast
  then have c3: "rebroadcastWorker_step rb_demo_broadcast
       (rb_init\<lparr>rb_phase := InIntn (CurrentWants rb_demo_redraw)\<rparr>)
     = rb_init\<lparr>rb_phase := AtFindKeys ''Y''\<rparr>"
    unfolding lr src rand_Intn_demo using yr by simp
  from sel [of rb_demo_broadcast] b w k d
  have u: "\<forall>j<length (CurrentWants rb_demo_broadcast).
      card {d. rebroadcastWorker_step (rb_demo_broadcast\<lparr>rand_Int63 := [d]\<rparr>) rb_init =
                 rb_init\<lparr>rb_phase := AtFindKeys (Entry_Cid (CurrentWants rb_demo_broadcast ! j))\<rparr>}
      = (if length (CurrentWants rb_demo_broadcast) \<le> 2 ^ 31 - 1
         then 2 ^ 32 * (2 ^ 31 div length (CurrentWants rb_demo_broadcast))
         else 2 ^ 63 div length (CurrentWants rb_demo_broadcast))"
    by blast
  have share: "(if (3::nat) \<le> 2 ^ 31 - 1 then 2 ^ 32 * (2 ^ 31 div 3) else 2 ^ 63 div 3)
      = (3074457342754947072 :: nat)"
    by simp
  from u [rule_format, of 2] l z share
  have c4: "card {d. rebroadcastWorker_step (rb_demo_broadcast\<lparr>rand_Int63 := [d]\<rparr>) rb_init
              = rb_init\<lparr>rb_phase := AtFindKeys ''Z''\<rparr>} = 3074457342754947072"
    by simp
  from u [rule_format, of 0] l x share
  have c5: "card {d. rebroadcastWorker_step (rb_demo_broadcast\<lparr>rand_Int63 := [d]\<rparr>) rb_init
              = rb_init\<lparr>rb_phase := AtFindKeys ''X''\<rparr>} = 3074457342754947072"
    by simp
  from sel [of rb_demo_broadcast] a f
  have c6: "rebroadcastWorker_step rb_demo_accept (rb_init\<lparr>rb_phase := AtFindKeys ''Y''\<rparr>)
     = rb_init\<lparr>rb_phase := AtTimers, findKeys_sent := [''Y'']\<rparr>"
    by simp
  from sel [of rb_demo_tick] t f
  have c7: "findKeys_sent (rebroadcastWorker_step rb_demo_tick rb_init) = []"
    by simp
  from h b w k d c1 r c2 c3 c4 c5 a c6 t c7 show ?thesis by blast
qed

end
